theory Spec2Isabelle
  imports Main "HOL-Library.Word"
begin

unbundle bit_operations_syntax

section \<open>The queue library \<open>qlib.c\<close>: data model\<close>

text \<open>
  \<open>qlib.h\<close>: \<open>typedef unsigned int QTICKET\<close>. Tickets and the nonce counter are
  unsigned 32-bit values, so they are words: addition and subtraction wrap around as the
  C operators do.

  Values of the C type \<open>int\<close> (queue elements, \<open>head\<close>, \<open>count\<close>, return codes) are
  HOL integers. The only arithmetic the library performs on them (\<open>head + count\<close>,
  \<open>head + 1\<close>, \<open>count + 1\<close>, \<open>count - 1\<close>) happens after \<open>readref\<close> has bounded
  \<open>head\<close> and \<open>count\<close> by \<open>MAXELT\<close>, so it cannot overflow. Where the code converts
  between \<open>unsigned int\<close> and \<open>int\<close> the conversion is written out (\<open>sint\<close>, \<open>uint\<close>,
  \<open>word_of_int\<close>).
\<close>

type_synonym QTICKET = "32 word"
type_synonym QELT = int

definition MAXQ :: nat where
  "MAXQ = 1024"

definition MAXELT :: int where
  "MAXELT = 1024"

definition IOFFSET :: "32 word" where
  "IOFFSET = 0x1221"

definition NOFFSET :: "32 word" where
  "NOFFSET = 0x0502"

definition QE_NONE :: int where
  "QE_NONE = 0"

definition QE_BADPARAM :: int where
  "QE_BADPARAM = - 1"

definition QE_BADTICKET :: int where
  "QE_BADTICKET = - 3"

definition QE_EMPTY :: int where
  "QE_EMPTY = - 4"

definition QE_FULL :: int where
  "QE_FULL = - 5"

definition QE_NOROOM :: int where
  "QE_NOROOM = - 6"

definition QE_TOOMANYQS :: int where
  "QE_TOOMANYQS = - 7"

definition QE_INTINCON :: int where
  "QE_INTINCON = - 8"

definition QE_TOOFULL :: int where
  "QE_TOOFULL = - 9"

text \<open>\<open>#define QE_ISERROR(x) ((x) < 0)\<close>, always applied to an \<open>int\<close>.\<close>

definition QE_ISERROR :: "int \<Rightarrow> bool" where
  "QE_ISERROR x = (x < 0)"

text \<open>
  \<open>struct queue\<close>. The array \<open>que[MAXELT]\<close> is a function from positions to elements;
  the code only ever indexes it with a value reduced modulo \<open>MAXELT\<close>.
\<close>

record QUEUE =
  ticket :: QTICKET
  que :: "nat \<Rightarrow> QELT"
  head :: int
  count :: int

text \<open>
  The global variables: \<open>static QUEUE *queues[MAXQ]\<close> (a \<open>NULL\<close> pointer is \<open>None\<close>;
  only positions below \<open>MAXQ\<close> exist in the C array and only those are ever touched)
  and \<open>static unsigned int noncectr\<close>. The message buffer \<open>qe_errbuf\<close> is diagnostic
  text that no library function reads back; it is not part of the model.
\<close>

record qstate =
  queues :: "nat \<Rightarrow> QUEUE option"
  noncectr :: "32 word"

text \<open>The static initialisers: every pointer \<open>NULL\<close>, \<open>noncectr = 1\<close>.\<close>

definition init_state :: qstate where
  "init_state = \<lparr> queues = (\<lambda>_. None), noncectr = 1 \<rparr>"

section \<open>The handle codec\<close>

text \<open>
  \<open>qtktref\<close>. A returned error code is \<open>QE_INTINCON\<close> converted to \<open>QTICKET\<close>.
  In \<open>low != (noncectr++ + NOFFSET) || low == 0\<close> the increment belongs to the left
  operand, which is always evaluated.
\<close>

definition qtktref :: "32 word \<Rightarrow> qstate \<Rightarrow> QTICKET \<times> qstate" where
  "qtktref index s =
     (if index > of_nat MAXQ then (word_of_int QE_INTINCON, s)
      else
        let high = (index + IOFFSET) AND 0x7fff in
        if high \<noteq> index + IOFFSET then (word_of_int QE_INTINCON, s)
        else
          let low = (noncectr s + NOFFSET) AND 0xffff;
              old = noncectr s;
              s' = s\<lparr>noncectr := noncectr s + 1\<rparr>
          in
            if low \<noteq> old + NOFFSET \<or> low = 0 then (word_of_int QE_INTINCON, s')
            else (push_bit 16 high OR low, s'))"

text \<open>
  \<open>readref\<close>. It reads the table and writes nothing but the message buffer, so it is
  a function of the state. The index is computed in unsigned arithmetic; the value
  returned on success is that index converted to \<open>int\<close>.
\<close>

definition readref :: "QTICKET \<Rightarrow> qstate \<Rightarrow> int" where
  "readref qno s =
     (let index = (drop_bit 16 qno AND 0xffff) - IOFFSET in
      if index \<ge> of_nat MAXQ then QE_BADTICKET
      else
        case queues s (unat index) of
          None \<Rightarrow> QE_BADTICKET
        | Some q \<Rightarrow>
            if ticket q \<noteq> qno then QE_BADTICKET
            else if head q < 0 \<or> head q \<ge> MAXELT \<or> count q < 0 \<or> count q > MAXELT
              then QE_INTINCON
            else if ticket q AND 0xffff = 0 then QE_INTINCON
            else uint index)"

section \<open>The slot table manager\<close>

text \<open>
  The scan \<open>for(cur = 0; cur < MAXQ; cur++) if (queues[cur] == NULL) break;\<close>,
  started at \<open>cur\<close>; the result is the value of \<open>cur\<close> after the loop.
\<close>

function scan_free :: "(nat \<Rightarrow> QUEUE option) \<Rightarrow> nat \<Rightarrow> nat" where
  "scan_free qs cur =
     (if cur < MAXQ then (if qs cur = None then cur else scan_free qs (cur + 1)) else cur)"
  by pat_completeness auto
termination
  by (relation "measure (\<lambda>(qs, cur). MAXQ - cur)") auto

declare scan_free.simps [simp del]

text \<open>
  \<open>create_queue\<close>. The first argument is what \<open>malloc\<close> returns: \<open>None\<close> for \<open>NULL\<close>,
  otherwise a block whose contents are whatever the allocator left there. The ticket
  passes through the local \<open>int tkt\<close> and back to \<open>QTICKET\<close> on return.
\<close>

definition create_queue :: "QUEUE option \<Rightarrow> qstate \<Rightarrow> QTICKET \<times> qstate" where
  "create_queue blk s =
     (let cur = scan_free (queues s) 0 in
      if cur = MAXQ then (word_of_int QE_TOOMANYQS, s)
      else
        case blk of
          None \<Rightarrow> (word_of_int QE_NOROOM, s\<lparr>queues := (queues s)(cur := None)\<rparr>)
        | Some q \<Rightarrow>
            let s1 = s\<lparr>queues := (queues s)(cur := Some q)\<rparr>;
                (t, s2) = qtktref (of_nat cur) s1;
                tkt = sint t
            in
              if QE_ISERROR tkt
              then (word_of_int tkt, s2\<lparr>queues := (queues s2)(cur := None)\<rparr>)
              else (word_of_int tkt,
                    s2\<lparr>queues := (queues s2)
                       (cur := Some (q\<lparr>head := 0, count := 0, ticket := word_of_int tkt\<rparr>))\<rparr>))"

definition delete_queue :: "QTICKET \<Rightarrow> qstate \<Rightarrow> int \<times> qstate" where
  "delete_queue qno s =
     (let cur = readref qno s in
      if QE_ISERROR cur then (cur, s)
      else (QE_NONE, s\<lparr>queues := (queues s)(nat cur := None)\<rparr>))"

text \<open>
  \<open>put_on_queue\<close> and \<open>take_off_queue\<close>. After \<open>readref\<close> has succeeded the slot is
  not \<open>NULL\<close>; the \<open>None\<close> branches below stand for the dereference of a null pointer,
  which the code never reaches, and leave the state as it is. After \<open>readref\<close> has
  succeeded \<open>head\<close> and \<open>count\<close> are not negative either, so the operator \<open>%\<close> of C
  agrees with \<open>mod\<close>.
\<close>

definition put_on_queue :: "QTICKET \<Rightarrow> int \<Rightarrow> qstate \<Rightarrow> int \<times> qstate" where
  "put_on_queue qno n s =
     (let cur = readref qno s in
      if QE_ISERROR cur then (cur, s)
      else
        case queues s (nat cur) of
          None \<Rightarrow> (QE_INTINCON, s)
        | Some q \<Rightarrow>
            if count q = MAXELT then (QE_TOOFULL, s)
            else
              (QE_NONE,
               s\<lparr>queues := (queues s)
                  (nat cur := Some (q\<lparr>que := (que q)(nat ((head q + count q) mod MAXELT) := n),
                                     count := count q + 1\<rparr>))\<rparr>))"

definition take_off_queue :: "QTICKET \<Rightarrow> qstate \<Rightarrow> int \<times> qstate" where
  "take_off_queue qno s =
     (let cur = readref qno s in
      if QE_ISERROR cur then (cur, s)
      else
        case queues s (nat cur) of
          None \<Rightarrow> (QE_INTINCON, s)
        | Some q \<Rightarrow>
            if count q = 0 then (QE_EMPTY, s)
            else
              let n = head q in
              (que q (nat n),
               s\<lparr>queues := (queues s)
                  (nat cur := Some (q\<lparr>count := count q - 1,
                                     head := (head q + 1) mod MAXELT\<rparr>))\<rparr>))"

section \<open>Vocabulary of the properties\<close>

text \<open>
  The two fields of a ticket as \<open>readref\<close> reads them: the slot index it decodes to
  and the generation field (the low 16 bits).
\<close>

definition tkt_index :: "QTICKET \<Rightarrow> 32 word" where
  "tkt_index qno = (drop_bit 16 qno AND 0xffff) - IOFFSET"

definition tkt_nonce :: "QTICKET \<Rightarrow> 32 word" where
  "tkt_nonce qno = qno AND 0xffff"

text \<open>
  The condition under which \<open>qtktref\<close> accepts the counter value \<open>n\<close>: the sum
  \<open>n + NOFFSET\<close>, computed in unsigned 32-bit arithmetic, fits into 16 bits and is not
  zero.
\<close>

definition mint_ok :: "32 word \<Rightarrow> bool" where
  "mint_ok n = (n + NOFFSET \<le> 0xffff \<and> n + NOFFSET \<noteq> 0)"

text \<open>The consistency conditions that \<open>readref\<close> checks on an occupied slot.\<close>

definition slot_ok :: "QUEUE \<Rightarrow> bool" where
  "slot_ok q =
     (0 \<le> head q \<and> head q < MAXELT \<and> 0 \<le> count q \<and> count q \<le> MAXELT \<and>
      tkt_nonce (ticket q) \<noteq> 0)"

definition table_inv :: "qstate \<Rightarrow> bool" where
  "table_inv s = (\<forall>i<MAXQ. \<forall>q. queues s i = Some q \<longrightarrow> slot_ok q)"

text \<open>
  Sequences of calls. An operation carries its arguments (for \<open>create_queue\<close>, what
  \<open>malloc\<close> returns); a result is a ticket or an \<open>int\<close> code.
\<close>

datatype qop = Create "QUEUE option" | Delete QTICKET | Put QTICKET int | Take QTICKET

datatype qres = Tkt QTICKET | Code int

fun exec :: "qop \<Rightarrow> qstate \<Rightarrow> qres \<times> qstate" where
  "exec (Create blk) s = (let (t, s') = create_queue blk s in (Tkt t, s'))"
| "exec (Delete qno) s = (let (r, s') = delete_queue qno s in (Code r, s'))"
| "exec (Put qno n) s = (let (r, s') = put_on_queue qno n s in (Code r, s'))"
| "exec (Take qno) s = (let (r, s') = take_off_queue qno s in (Code r, s'))"

fun run :: "qop list \<Rightarrow> qstate \<Rightarrow> qres list \<times> qstate" where
  "run [] s = ([], s)"
| "run (op # ops) s =
     (let (r, s') = exec op s; (rs, s'') = run ops s' in (r # rs, s''))"


fun is_create :: "qop \<Rightarrow> bool" where
  "is_create (Create blk) = True"
| "is_create _ = False"

text \<open>\<open>n\<close> calls of \<open>take_off_queue\<close> on one ticket, with the values they return.\<close>

fun takes :: "QTICKET \<Rightarrow> nat \<Rightarrow> qstate \<Rightarrow> int list \<times> qstate" where
  "takes qno 0 s = ([], s)"
| "takes qno (Suc k) s =
     (let (r, s') = take_off_queue qno s; (rs, s'') = takes qno k s' in (r # rs, s''))"

text \<open>One call of \<open>put_on_queue\<close> for each value of a list, in order.\<close>

fun puts :: "QTICKET \<Rightarrow> int list \<Rightarrow> qstate \<Rightarrow> int list \<times> qstate" where
  "puts qno [] s = ([], s)"
| "puts qno (v # vs) s =
     (let (r, s') = put_on_queue qno v s; (rs, s'') = puts qno vs s' in (r # rs, s''))"

text \<open>
  The elements a queue holds, oldest first: the \<open>count\<close> positions of the ring
  starting at \<open>head\<close>.
\<close>

definition qcontents :: "QUEUE \<Rightarrow> int list" where
  "qcontents q = map (\<lambda>k. que q (nat ((head q + int k) mod MAXELT))) [0..<nat (count q)]"

text \<open>A ticket is live for the queue \<open>q\<close>: \<open>readref\<close> accepts it and finds \<open>q\<close>.\<close>

definition live :: "QTICKET \<Rightarrow> qstate \<Rightarrow> QUEUE \<Rightarrow> bool" where
  "live qno s q = (\<not> QE_ISERROR (readref qno s) \<and> queues s (nat (readref qno s)) = Some q)"

text \<open>
  Example data: a block as \<open>malloc\<close> may return it, with arbitrary contents, and a
  table whose slot 0 holds one queue with the first ticket \<open>create_queue\<close> issues.
\<close>

definition junk :: QUEUE where
  "junk = \<lparr>ticket = 0xdead, que = (\<lambda>_. 7), head = 5, count = 9\<rparr>"

definition one_queue :: "int \<Rightarrow> int \<Rightarrow> qstate" where
  "one_queue h c =
     \<lparr>queues = (\<lambda>_. None)(0 := Some \<lparr>ticket = 0x12210503, que = (\<lambda>_. 7), head = h, count = c\<rparr>),
      noncectr = 2\<rparr>"




text \<open>The tickets that the successful calls of \<open>create_queue\<close> return in a run.\<close>

fun issued :: "qop list \<Rightarrow> qstate \<Rightarrow> QTICKET list" where
  "issued [] s = []"
| "issued (op # ops) s =
     (case exec op s of
        (Tkt t, s') \<Rightarrow> (if QE_ISERROR (sint t) then issued ops s' else t # issued ops s')
      | (Code r, s') \<Rightarrow> issued ops s')"

text \<open>
  Before each operation of the run the counter is below \<open>0xFAFE\<close>, the first value
  for which \<open>noncectr + NOFFSET\<close> no longer fits into 16 bits.
\<close>

fun below_limit :: "qop list \<Rightarrow> qstate \<Rightarrow> bool" where
  "below_limit [] s = True"
| "below_limit (op # ops) s = (noncectr s < 0xFAFE \<and> below_limit ops (snd (exec op s)))"

text \<open>
  Every occupied slot stores a ticket that decodes to the slot's own index.
\<close>

definition slots_indexed :: "qstate \<Rightarrow> bool" where
  "slots_indexed s = (\<forall>i<MAXQ. \<forall>q. queues s i = Some q \<longrightarrow> tkt_index (ticket q) = of_nat i)"

text \<open>
  Two runs that end in a call of \<open>take_off_queue\<close>: the first dequeues the element
  \<open>-3\<close>, the second presents a ticket that was never issued.
\<close>

definition run_ok :: "qop list" where
  "run_ok = [Create (Some junk), Put 0x12210503 (- 3), Take 0x12210503]"

definition run_bad :: "qop list" where
  "run_bad = [Create (Some junk), Take 0x12210504]"

text \<open>
  The empty table with the counter at \<open>0xFAFE\<close>, and a table whose \<open>MAXQ\<close> slots are
  all occupied, with the same counter value.
\<close>

definition exhausted_state :: qstate where
  "exhausted_state = \<lparr>queues = (\<lambda>_. None), noncectr = 0xFAFE\<rparr>"

definition full_state :: qstate where
  "full_state = \<lparr>queues = (\<lambda>_. Some junk), noncectr = 0xFAFE\<rparr>"





section \<open>Basic facts\<close>

lemmas code_defs = QE_NONE_def QE_BADTICKET_def QE_EMPTY_def QE_NOROOM_def QE_TOOMANYQS_def
  QE_INTINCON_def QE_TOOFULL_def QE_ISERROR_def

lemma mask16: "(0xffff::32 word) = mask 16"
  by (simp add: mask_eq_exp_minus_1)

lemma mask15: "(0x7fff::32 word) = mask 15"
  by (simp add: mask_eq_exp_minus_1)

lemma and_ffff_iff: "((x::32 word) AND 0xffff = x) = (x \<le> 0xffff)"
proof -
  have "(x AND 0xffff = x) = (x AND mask 16 = x)" by (simp only: mask16)
  also have "\<dots> = (uint x < 2 ^ 16)" by (rule mask_eq_iff)
  also have "\<dots> = (x \<le> 0xffff)" by (auto simp: word_le_def)
  finally show ?thesis .
qed

lemma and_7fff_iff: "((x::32 word) AND 0x7fff = x) = (x \<le> 0x7fff)"
proof -
  have "(x AND 0x7fff = x) = (x AND mask 15 = x)" by (simp only: mask15)
  also have "\<dots> = (uint x < 2 ^ 15)" by (rule mask_eq_iff)
  also have "\<dots> = (x \<le> 0x7fff)" by (auto simp: word_le_def)
  finally show ?thesis .
qed

lemma index_field_fits: "index \<le> (1024::32 word) \<Longrightarrow> index + 0x1221 \<le> 0x7fff"
  by (simp add: word_le_def uint_word_ariths)

lemma pack_index:
  "drop_bit 16 (push_bit 16 (X AND 0x7fff) OR (Y AND 0xffff)) AND 0xffff = (X AND 0x7fff :: 32 word)"
  unfolding mask16 mask15 by (rule bit_word_eqI) (auto simp: bit_simps)

lemma pack_nonce:
  "(push_bit 16 (X AND 0x7fff) OR (Y AND 0xffff)) AND 0xffff = (Y AND 0xffff :: 32 word)"
  unfolding mask16 mask15 by (rule bit_word_eqI) (auto simp: bit_simps)

lemma pack_nonneg: "0 \<le> sint (push_bit 16 (X AND 0x7fff) OR (Y AND 0xffff) :: 32 word)"
proof -
  have "\<not> bit (push_bit 16 (X AND 0x7fff) OR (Y AND 0xffff) :: 32 word) (LENGTH(32) - Suc 0)"
    unfolding mask16 mask15 by (simp add: bit_simps)
  then show ?thesis unfolding bit_last_iff by simp
qed

text \<open>The ticket that \<open>qtktref\<close> builds for slot \<open>cur\<close> from the counter value \<open>n\<close>.\<close>

lemma ticket_fields:
  assumes "cur \<le> 1024" and "mint_ok n"
  defines "t \<equiv> push_bit 16 (of_nat cur + IOFFSET) OR (n + NOFFSET)"
  shows "tkt_index t = of_nat cur" and "tkt_nonce t = n + NOFFSET" and "0 \<le> sint t"
    and "tkt_nonce t \<noteq> 0"
proof -
  have c: "(of_nat cur :: 32 word) \<le> 1024"
    using assms(1) by (simp add: word_le_nat_alt unat_of_nat)
  have hi: "(of_nat cur + IOFFSET) AND 0x7fff = of_nat cur + IOFFSET"
    using index_field_fits[OF c] by (simp add: and_7fff_iff IOFFSET_def)
  have lo: "(n + NOFFSET) AND 0xffff = n + NOFFSET"
    using assms(2) by (simp add: and_ffff_iff mint_ok_def)
  have t: "t = push_bit 16 ((of_nat cur + IOFFSET) AND 0x7fff) OR ((n + NOFFSET) AND 0xffff)"
    by (simp add: t_def hi lo)
  show "tkt_index t = of_nat cur"
    unfolding tkt_index_def t pack_index by (simp add: hi)
  show "tkt_nonce t = n + NOFFSET"
    unfolding tkt_nonce_def t pack_nonce by (simp add: lo)
  then show "tkt_nonce t \<noteq> 0" using assms(2) by (simp add: mint_ok_def)
  show "0 \<le> sint t" unfolding t by (rule pack_nonneg)
qed

lemma qtktref_in_range:
  assumes "index \<le> 1024"
  shows "qtktref index s =
     (if mint_ok (noncectr s) then push_bit 16 (index + IOFFSET) OR (noncectr s + NOFFSET)
      else word_of_int QE_INTINCON, s\<lparr>noncectr := noncectr s + 1\<rparr>)"
proof -
  have a: "\<not> index > of_nat MAXQ" using assms by (simp add: MAXQ_def not_less)
  have b: "(index + IOFFSET) AND 0x7fff = index + IOFFSET"
    using index_field_fits[OF assms] by (simp add: and_7fff_iff IOFFSET_def)
  have c: "noncectr s + NOFFSET \<le> 0xffff \<Longrightarrow>
      (noncectr s + NOFFSET) AND 0xffff = noncectr s + NOFFSET"
    by (simp add: and_ffff_iff)
  have d: "(noncectr s + NOFFSET = (noncectr s + NOFFSET) AND 0xffff) = (noncectr s + NOFFSET \<le> 0xffff)"
    using and_ffff_iff[of "noncectr s + NOFFSET"] by auto
  show ?thesis
    by (auto simp add: qtktref_def a b c d Let_def mint_ok_def and_ffff_iff)
qed

subsection \<open>The scan for a free slot\<close>

lemma scan_free_stop: "cur < MAXQ \<Longrightarrow> qs cur = None \<Longrightarrow> scan_free qs cur = cur"
  by (subst scan_free.simps) simp

lemma scan_free_next:
  "cur < MAXQ \<Longrightarrow> qs cur \<noteq> None \<Longrightarrow> scan_free qs cur = scan_free qs (cur + 1)"
  by (subst scan_free.simps) auto

lemma scan_free_end: "\<not> cur < MAXQ \<Longrightarrow> scan_free qs cur = cur"
  by (subst scan_free.simps) simp

lemma scan_free_bounds: "cur \<le> MAXQ \<Longrightarrow> cur \<le> scan_free qs cur \<and> scan_free qs cur \<le> MAXQ"
proof (induction qs cur rule: scan_free.induct)
  case (1 qs cur)
  consider "\<not> cur < MAXQ" | "cur < MAXQ" "qs cur = None" | "cur < MAXQ" "qs cur \<noteq> None"
    by blast
  then show ?case
  proof cases
    case 1
    with "1.prems" show ?thesis by (simp add: scan_free_end)
  next
    case 2
    then show ?thesis by (simp add: scan_free_stop)
  next
    case 3
    with "1.IH" have "cur + 1 \<le> scan_free qs (cur + 1) \<and> scan_free qs (cur + 1) \<le> MAXQ"
      by simp
    with 3 show ?thesis by (simp add: scan_free_next)
  qed
qed

lemma scan_free_None: "scan_free qs cur < MAXQ \<Longrightarrow> qs (scan_free qs cur) = None"
proof (induction qs cur rule: scan_free.induct)
  case (1 qs cur)
  consider "\<not> cur < MAXQ" | "cur < MAXQ" "qs cur = None" | "cur < MAXQ" "qs cur \<noteq> None"
    by blast
  then show ?case
  proof cases
    case 1
    with "1.prems" show ?thesis by (simp add: scan_free_end)
  next
    case 2
    then show ?thesis by (simp add: scan_free_stop)
  next
    case 3
    then have e: "scan_free qs cur = scan_free qs (cur + 1)" by (rule scan_free_next)
    with "1.IH" "1.prems" 3 show ?thesis by simp
  qed
qed

lemma scan_free_skips: "cur \<le> j \<Longrightarrow> j < scan_free qs cur \<Longrightarrow> qs j \<noteq> None"
proof (induction qs cur rule: scan_free.induct)
  case (1 qs cur)
  consider "\<not> cur < MAXQ" | "cur < MAXQ" "qs cur = None" | "cur < MAXQ" "qs cur \<noteq> None"
    by blast
  then show ?case
  proof cases
    case 1
    with "1.prems" show ?thesis by (simp add: scan_free_end)
  next
    case 2
    with "1.prems" show ?thesis by (simp add: scan_free_stop)
  next
    case 3
    then have e: "scan_free qs cur = scan_free qs (cur + 1)" by (rule scan_free_next)
    show ?thesis
    proof (cases "j = cur")
      case True
      with 3 show ?thesis by simp
    next
      case False
      with "1.prems" have "cur + 1 \<le> j" by simp
      with "1.IH" "1.prems" 3 e show ?thesis by simp
    qed
  qed
qed

lemma scan_free_least:
  assumes "i < MAXQ" "qs i = None" "\<forall>j<i. qs j \<noteq> None"
  shows "scan_free qs 0 = i"
proof -
  let ?c = "scan_free qs 0"
  have "\<not> i < ?c" using scan_free_skips[of 0 i qs] assms by auto
  then have "?c < MAXQ" using assms(1) by simp
  then have "qs ?c = None" by (rule scan_free_None)
  with assms(3) have "\<not> ?c < i" by auto
  with \<open>\<not> i < ?c\<close> show ?thesis by simp
qed

lemma scan_free_full: "(\<forall>j<MAXQ. qs j \<noteq> None) \<Longrightarrow> scan_free qs 0 = MAXQ"
  using scan_free_bounds[of 0 qs] scan_free_None[of qs 0] by (cases "scan_free qs 0 < MAXQ") auto

subsection \<open>Validation\<close>

lemma index_in_range:
  "\<not> (1024::32 word) \<le> w \<Longrightarrow> 0 \<le> uint w \<and> uint w < 1024 \<and> nat (uint w) = unat w \<and> unat w < 1024"
  by (simp add: word_le_def not_le nat_less_iff unat_eq_nat_uint del: nat_uint_eq)

lemma readref_alt:
  "readref qno s =
     (if tkt_index qno \<ge> 1024 then QE_BADTICKET
      else case queues s (unat (tkt_index qno)) of
          None \<Rightarrow> QE_BADTICKET
        | Some q \<Rightarrow> if ticket q \<noteq> qno then QE_BADTICKET
            else if slot_ok q then uint (tkt_index qno) else QE_INTINCON)"
  by (auto simp add: readref_def tkt_index_def tkt_nonce_def Let_def MAXQ_def slot_ok_def
      split: option.splits)

lemma readref_error_iff:
  "QE_ISERROR (readref qno s) \<longleftrightarrow> readref qno s = QE_BADTICKET \<or> readref qno s = QE_INTINCON"
proof -
  have "0 \<le> uint (tkt_index qno)" by simp
  then have "\<not> uint (tkt_index qno) < 0" "uint (tkt_index qno) \<noteq> - 3"
    "uint (tkt_index qno) \<noteq> - 8" by linarith+
  then show ?thesis
    by (simp add: readref_alt code_defs split: option.splits)
qed

lemma readref_okD:
  assumes "\<not> QE_ISERROR (readref qno s)"
  obtains q where "queues s (nat (readref qno s)) = Some q" "ticket q = qno" "slot_ok q"
    "nat (readref qno s) = unat (tkt_index qno)" "nat (readref qno s) < MAXQ"
    "readref qno s = uint (tkt_index qno)"
proof -
  from assms have r: "\<not> 1024 \<le> tkt_index qno"
    by (auto simp: readref_alt code_defs)
  note ir = index_in_range[OF r]
  from assms r obtain q where q: "queues s (unat (tkt_index qno)) = Some q"
    by (cases "queues s (unat (tkt_index qno))") (auto simp: readref_alt code_defs)
  from assms r q have t: "ticket q = qno" and ok: "slot_ok q"
    by (auto simp: readref_alt code_defs split: if_splits)
  from r q t ok have v: "readref qno s = uint (tkt_index qno)"
    by (simp add: readref_alt)
  show thesis
    by (rule that[of q]) (use q t ok v ir in \<open>simp_all add: MAXQ_def\<close>)
qed



lemma readref_empty:
  assumes "queues s (unat (tkt_index qno)) = None"
  shows "readref qno s = QE_BADTICKET"
  using assms by (simp add: readref_alt)

subsection \<open>The operations on a validated ticket\<close>

lemma op_error:
  assumes "QE_ISERROR (readref qno s)"
  shows "delete_queue qno s = (readref qno s, s)"
    and "put_on_queue qno n s = (readref qno s, s)"
    and "take_off_queue qno s = (readref qno s, s)"
  using assms by (simp_all add: delete_queue_def put_on_queue_def take_off_queue_def)

lemma delete_ok:
  assumes "\<not> QE_ISERROR (readref qno s)"
  shows "delete_queue qno s = (QE_NONE, s\<lparr>queues := (queues s)(nat (readref qno s) := None)\<rparr>)"
  using assms by (simp add: delete_queue_def)

lemma put_ok:
  assumes "\<not> QE_ISERROR (readref qno s)" "queues s (nat (readref qno s)) = Some q"
  shows "put_on_queue qno n s =
     (if count q = MAXELT then (QE_TOOFULL, s)
      else (QE_NONE, s\<lparr>queues := (queues s)(nat (readref qno s) :=
              Some (q\<lparr>que := (que q)(nat ((head q + count q) mod MAXELT) := n),
                      count := count q + 1\<rparr>))\<rparr>))"
  using assms by (simp add: put_on_queue_def)

lemma take_ok:
  assumes "\<not> QE_ISERROR (readref qno s)" "queues s (nat (readref qno s)) = Some q"
  shows "take_off_queue qno s =
     (if count q = 0 then (QE_EMPTY, s)
      else (que q (nat (head q)),
            s\<lparr>queues := (queues s)(nat (readref qno s) :=
              Some (q\<lparr>count := count q - 1, head := (head q + 1) mod MAXELT\<rparr>))\<rparr>))"
  using assms by (simp add: take_off_queue_def Let_def)

subsection \<open>Creation\<close>

lemma sint_code: "sint (word_of_int QE_INTINCON :: 32 word) = QE_INTINCON"
  by (simp add: QE_INTINCON_def)

lemma create_queue_alt:
  "create_queue blk s =
     (let cur = scan_free (queues s) 0 in
      if cur = MAXQ then (word_of_int QE_TOOMANYQS, s)
      else case blk of
          None \<Rightarrow> (word_of_int QE_NOROOM, s)
        | Some q \<Rightarrow>
            if mint_ok (noncectr s)
            then (push_bit 16 (of_nat cur + IOFFSET) OR (noncectr s + NOFFSET),
                  s\<lparr>queues := (queues s)(cur := Some (q\<lparr>head := 0, count := 0,
                       ticket := push_bit 16 (of_nat cur + IOFFSET) OR (noncectr s + NOFFSET)\<rparr>)),
                    noncectr := noncectr s + 1\<rparr>)
            else (word_of_int QE_INTINCON, s\<lparr>noncectr := noncectr s + 1\<rparr>))"
proof -
  let ?cur = "scan_free (queues s) 0"
  have le: "?cur \<le> MAXQ" using scan_free_bounds[of 0 "queues s"] by simp
  show ?thesis
  proof (cases "?cur = MAXQ")
    case True
    then show ?thesis by (simp add: create_queue_def)
  next
    case False
    with le have lt: "?cur < MAXQ" by simp
    then have free: "queues s ?cur = None" by (rule scan_free_None)
    then have idem: "(queues s)(?cur := None) = queues s" by (rule fun_upd_idem)
    have w: "(of_nat ?cur :: 32 word) \<le> 1024"
      using lt by (simp add: word_le_nat_alt unat_of_nat MAXQ_def)
    show ?thesis
    proof (cases blk)
      case None
      with False idem show ?thesis by (simp add: create_queue_def)
    next
      case (Some q)
      show ?thesis
      proof (cases "mint_ok (noncectr s)")
        case True
        have "0 \<le> sint (push_bit 16 (of_nat ?cur + IOFFSET) OR (noncectr s + NOFFSET))"
          using ticket_fields(3)[of ?cur "noncectr s"] lt True by (simp add: MAXQ_def)
        with True False Some show ?thesis
          by (simp add: create_queue_def Let_def qtktref_in_range[OF w] QE_ISERROR_def)
      next
        case nok: False
        with False Some idem show ?thesis
          by (simp add: create_queue_def Let_def qtktref_in_range[OF w] sint_code code_defs)
      qed
    qed
  qed
qed

section \<open>Auxiliary facts for the properties\<close>

lemmas eval_defs = init_state_def junk_def one_queue_def MAXQ_def MAXELT_def IOFFSET_def NOFFSET_def
  code_defs tkt_index_def tkt_nonce_def

subsection \<open>The slot invariant\<close>

lemma table_inv_upd:
  "table_inv s \<Longrightarrow> slot_ok q \<Longrightarrow> table_inv (s\<lparr>queues := (queues s)(i := Some q)\<rparr>)"
  by (simp add: table_inv_def)

lemma table_inv_del: "table_inv s \<Longrightarrow> table_inv (s\<lparr>queues := (queues s)(i := None)\<rparr>)"
  by (simp add: table_inv_def)

lemma table_inv_ctr: "table_inv (s\<lparr>noncectr := n\<rparr>) = table_inv s"
  by (simp add: table_inv_def)

lemma create_inv: "table_inv s \<Longrightarrow> table_inv (snd (create_queue blk s))"
proof -
  assume inv: "table_inv s"
  let ?cur = "scan_free (queues s) 0"
  have le: "?cur \<le> 1024" using scan_free_bounds[of 0 "queues s"] by (simp add: MAXQ_def)
  have ok: "slot_ok (q\<lparr>head := 0, count := 0,
       ticket := push_bit 16 (of_nat ?cur + IOFFSET) OR (noncectr s + NOFFSET)\<rparr>)"
    if "mint_ok (noncectr s)" for q
    using ticket_fields(4)[OF le that] by (simp add: slot_ok_def MAXELT_def)
  show ?thesis
    using inv ok
    by (auto simp: create_queue_alt Let_def table_inv_def split: option.splits)
qed

lemma delete_inv: "table_inv s \<Longrightarrow> table_inv (snd (delete_queue qno s))"
  by (cases "QE_ISERROR (readref qno s)") (simp_all add: op_error delete_ok table_inv_del)

lemma put_inv: "table_inv s \<Longrightarrow> table_inv (snd (put_on_queue qno n s))"
proof (cases "QE_ISERROR (readref qno s)")
  case True
  assume "table_inv s"
  with True show ?thesis by (simp add: op_error)
next
  case False
  assume inv: "table_inv s"
  from False obtain q where q: "queues s (nat (readref qno s)) = Some q" "slot_ok q"
    by (rule readref_okD)
  have "slot_ok (q\<lparr>que := f, count := count q + 1\<rparr>)" if "count q \<noteq> MAXELT" for f
    using q(2) that by (simp add: slot_ok_def)
  with inv q(1) False show ?thesis by (simp add: put_ok table_inv_upd)
qed

lemma take_inv: "table_inv s \<Longrightarrow> table_inv (snd (take_off_queue qno s))"
proof (cases "QE_ISERROR (readref qno s)")
  case True
  assume "table_inv s"
  with True show ?thesis by (simp add: op_error)
next
  case False
  assume inv: "table_inv s"
  from False obtain q where q: "queues s (nat (readref qno s)) = Some q" "slot_ok q"
    by (rule readref_okD)
  have "slot_ok (q\<lparr>count := count q - 1, head := (head q + 1) mod MAXELT\<rparr>)" if "count q \<noteq> 0"
    using q(2) that by (simp add: slot_ok_def MAXELT_def)
  with inv q(1) False show ?thesis by (simp add: take_ok table_inv_upd)
qed

subsection \<open>The ring buffer of a live queue\<close>

lemma live_slot_ok: "live qno s q \<Longrightarrow> slot_ok q \<and> ticket q = qno"
  unfolding live_def by (auto elim: readref_okD)

lemma live_update:
  assumes l: "live qno s q" and t: "ticket q' = ticket q" and ok: "slot_ok q'"
  shows "live qno (s\<lparr>queues := (queues s)(nat (readref qno s) := Some q')\<rparr>) q' \<and>
         readref qno (s\<lparr>queues := (queues s)(nat (readref qno s) := Some q')\<rparr>) = readref qno s"
proof -
  from l have ne: "\<not> QE_ISERROR (readref qno s)" by (simp add: live_def)
  from ne obtain q0 where q0: "queues s (nat (readref qno s)) = Some q0" "ticket q0 = qno"
    "nat (readref qno s) = unat (tkt_index qno)" "nat (readref qno s) < MAXQ"
    "readref qno s = uint (tkt_index qno)"
    by (rule readref_okD)
  from l q0 have "q0 = q" by (simp add: live_def)
  let ?s = "s\<lparr>queues := (queues s)(nat (readref qno s) := Some q')\<rparr>"
  have r: "\<not> 1024 \<le> tkt_index qno"
    using q0(3,4) by (simp add: word_le_nat_alt MAXQ_def)
  have "readref qno ?s = uint (tkt_index qno)"
    using r q0 t ok \<open>q0 = q\<close> by (simp add: readref_alt)
  with q0(5) have e: "readref qno ?s = readref qno s" by simp
  with ne show ?thesis by (simp add: live_def)
qed

lemma pos_distinct:
  assumes "0 \<le> h" "h < 1024" "k < c" "c < (1024::nat)"
  shows "nat ((h + int k) mod 1024) \<noteq> nat ((h + int c) mod 1024)"
proof
  assume "nat ((h + int k) mod 1024) = nat ((h + int c) mod 1024)"
  then have "(h + int k) mod 1024 = (h + int c) mod 1024"
    by (simp add: eq_nat_nat_iff)
  then have "(int c - int k) mod 1024 = 0"
    by (metis add_diff_cancel_left' mod_diff_cong diff_self mod_0)
  moreover have "0 < int c - int k" "int c - int k < 1024" using assms by simp_all
  ultimately show False by simp
qed

lemma put_step:
  assumes l: "live qno s q" and nf: "count q \<noteq> MAXELT"
  shows "\<exists>s' q'. put_on_queue qno v s = (QE_NONE, s') \<and> live qno s' q' \<and>
           readref qno s' = readref qno s \<and>
           head q' = head q \<and> count q' = count q + 1 \<and>
           que q' = (que q)(nat ((head q + count q) mod MAXELT) := v) \<and>
           qcontents q' = qcontents q @ [v]"
proof -
  let ?q' = "q\<lparr>que := (que q)(nat ((head q + count q) mod MAXELT) := v), count := count q + 1\<rparr>"
  let ?s' = "s\<lparr>queues := (queues s)(nat (readref qno s) := Some ?q')\<rparr>"
  from l have ne: "\<not> QE_ISERROR (readref qno s)" and q: "queues s (nat (readref qno s)) = Some q"
    by (simp_all add: live_def)
  from live_slot_ok[OF l] have ok: "slot_ok q" by simp
  then have b: "0 \<le> head q" "head q < 1024" "0 \<le> count q" "count q < 1024"
    using nf by (simp_all add: slot_ok_def MAXELT_def)
  have ok': "slot_ok ?q'" using ok nf by (simp add: slot_ok_def)
  have p: "put_on_queue qno v s = (QE_NONE, ?s')"
    using ne q nf by (simp add: put_ok)
  have lv: "live qno ?s' ?q' \<and> readref qno ?s' = readref qno s"
    by (rule live_update[OF l _ ok']) simp
  have n: "nat (count q + 1) = Suc (nat (count q))" using b by simp
  have d: "nat ((head q + int k) mod 1024) \<noteq> nat ((head q + count q) mod 1024)"
    if "k < nat (count q)" for k
    using pos_distinct[of "head q" k "nat (count q)"] b that by simp
  have c: "qcontents ?q' = qcontents q @ [v]"
    using b d by (simp add: qcontents_def n MAXELT_def)
  show ?thesis using p lv c by (intro exI[of _ ?s'] exI[of _ ?q']) simp
qed

lemma take_step:
  assumes l: "live qno s q" and ne0: "count q \<noteq> 0"
  shows "\<exists>s' q'. take_off_queue qno s = (que q (nat (head q)), s') \<and> live qno s' q' \<and>
           readref qno s' = readref qno s \<and>
           head q' = (head q + 1) mod MAXELT \<and> count q' = count q - 1 \<and> que q' = que q \<and>
           qcontents q = que q (nat (head q)) # qcontents q'"
proof -
  let ?q' = "q\<lparr>count := count q - 1, head := (head q + 1) mod MAXELT\<rparr>"
  let ?s' = "s\<lparr>queues := (queues s)(nat (readref qno s) := Some ?q')\<rparr>"
  from l have ne: "\<not> QE_ISERROR (readref qno s)" and q: "queues s (nat (readref qno s)) = Some q"
    by (simp_all add: live_def)
  from live_slot_ok[OF l] have ok: "slot_ok q" by simp
  then have b: "0 \<le> head q" "head q < 1024" "0 < count q" "count q \<le> 1024"
    using ne0 by (simp_all add: slot_ok_def MAXELT_def)
  have ok': "slot_ok ?q'" using ok ne0 by (simp add: slot_ok_def MAXELT_def)
  have p: "take_off_queue qno s = (que q (nat (head q)), ?s')"
    using ne q ne0 by (simp add: take_ok)
  have lv: "live qno ?s' ?q' \<and> readref qno ?s' = readref qno s"
    by (rule live_update[OF l _ ok']) simp
  obtain m where m: "nat (count q) = Suc m" "nat (count q - 1) = m"
    using b by (cases "nat (count q)") auto
  have u: "[0..<Suc m] = 0 # map Suc [0..<m]"
    by (simp add: upt_conv_Cons map_Suc_upt del: upt_Suc)
  have c: "qcontents q = que q (nat (head q)) # qcontents ?q'"
    using b unfolding qcontents_def m u by (simp add: m MAXELT_def o_def mod_simps ac_simps)
  show ?thesis using p lv c by (intro exI[of _ ?s'] exI[of _ ?q']) simp
qed


lemma puts_run:
  "live qno s q \<Longrightarrow> count q + int (length vs) \<le> MAXELT \<Longrightarrow>
   \<exists>s' q'. puts qno vs s = (replicate (length vs) QE_NONE, s') \<and> live qno s' q' \<and>
      readref qno s' = readref qno s \<and> head q' = head q \<and>
      count q' = count q + int (length vs) \<and> qcontents q' = qcontents q @ vs"
proof (induction vs arbitrary: s q)
  case Nil
  then show ?case by (intro exI[of _ s] exI[of _ q]) simp
next
  case (Cons v vs)
  from Cons.prems have nf: "count q \<noteq> MAXELT" by simp
  from put_step[OF Cons.prems(1) nf, of v] obtain s1 q1 where
    1: "put_on_queue qno v s = (QE_NONE, s1)" "live qno s1 q1" "readref qno s1 = readref qno s"
       "head q1 = head q" "count q1 = count q + 1" "qcontents q1 = qcontents q @ [v]"
    by blast
  from Cons.prems 1 have "count q1 + int (length vs) \<le> MAXELT" by simp
  from Cons.IH[OF 1(2) this] obtain s2 q2 where
    2: "puts qno vs s1 = (replicate (length vs) QE_NONE, s2)" "live qno s2 q2"
       "readref qno s2 = readref qno s1" "head q2 = head q1"
       "count q2 = count q1 + int (length vs)" "qcontents q2 = qcontents q1 @ vs"
    by blast
  show ?case using 1 2 by (intro exI[of _ s2] exI[of _ q2]) simp
qed

lemma takes_run:
  "live qno s q \<Longrightarrow> int k \<le> count q \<Longrightarrow>
   \<exists>s' q'. takes qno k s = (take k (qcontents q), s') \<and> live qno s' q' \<and>
      readref qno s' = readref qno s \<and> head q' = (head q + int k) mod MAXELT \<and>
      count q' = count q - int k \<and> qcontents q' = drop k (qcontents q)"
proof (induction k arbitrary: s q)
  case 0
  from live_slot_ok[OF "0.prems"(1)] have "head q mod MAXELT = head q"
    by (simp add: slot_ok_def)
  with "0.prems" show ?case by (intro exI[of _ s] exI[of _ q]) simp
next
  case (Suc k)
  from Suc.prems have ne0: "count q \<noteq> 0" by auto
  from take_step[OF Suc.prems(1) ne0] obtain s1 q1 where
    1: "take_off_queue qno s = (que q (nat (head q)), s1)" "live qno s1 q1"
       "readref qno s1 = readref qno s" "head q1 = (head q + 1) mod MAXELT"
       "count q1 = count q - 1" "qcontents q = que q (nat (head q)) # qcontents q1"
    by blast
  from Suc.prems 1 have "int k \<le> count q1" by simp
  from Suc.IH[OF 1(2) this] obtain s2 q2 where
    2: "takes qno k s1 = (take k (qcontents q1), s2)" "live qno s2 q2"
       "readref qno s2 = readref qno s1" "head q2 = (head q1 + int k) mod MAXELT"
       "count q2 = count q1 - int k" "qcontents q2 = drop k (qcontents q1)"
    by blast
  have "(head q1 + int k) mod MAXELT = (head q + int (Suc k)) mod MAXELT"
    unfolding 1(4) by (simp add: mod_simps ac_simps)
  with 1 2 show ?case by (intro exI[of _ s2] exI[of _ q2]) simp
qed

lemma qcontents_nth:
  "k < nat (count q) \<Longrightarrow> qcontents q ! k = que q (nat ((head q + int k) mod MAXELT))"
  by (simp add: qcontents_def)

lemma live_one_queue:
  "0 \<le> h \<Longrightarrow> h < 1024 \<Longrightarrow> 0 \<le> c \<Longrightarrow> c \<le> 1024 \<Longrightarrow>
   readref 0x12210503 (one_queue h c) = 0 \<and>
   queues (one_queue h c) 0 = Some \<lparr>ticket = 0x12210503, que = (\<lambda>_. 7), head = h, count = c\<rparr>"
  by (simp add: readref_def eval_defs)

subsection \<open>Stored tickets decode to their slot\<close>

lemma slots_indexed_init: "slots_indexed init_state"
  by (simp add: slots_indexed_def init_state_def)

lemma create_indexed: "slots_indexed s \<Longrightarrow> slots_indexed (snd (create_queue blk s))"
proof -
  assume inv: "slots_indexed s"
  let ?cur = "scan_free (queues s) 0"
  have le: "?cur \<le> 1024" using scan_free_bounds[of 0 "queues s"] by (simp add: MAXQ_def)
  have ix: "tkt_index (push_bit 16 (of_nat ?cur + IOFFSET) OR (noncectr s + NOFFSET)) = of_nat ?cur"
    if "mint_ok (noncectr s)"
    using ticket_fields(1)[OF le that] .
  show ?thesis
    using inv ix
    by (auto simp: create_queue_alt Let_def slots_indexed_def split: option.splits)
qed

lemma delete_indexed: "slots_indexed s \<Longrightarrow> slots_indexed (snd (delete_queue qno s))"
  by (cases "QE_ISERROR (readref qno s)") (simp_all add: op_error delete_ok slots_indexed_def)

lemma put_indexed: "slots_indexed s \<Longrightarrow> slots_indexed (snd (put_on_queue qno n s))"
proof (cases "QE_ISERROR (readref qno s)")
  case True
  assume "slots_indexed s"
  with True show ?thesis by (simp add: op_error)
next
  case False
  assume inv: "slots_indexed s"
  from False obtain q where q: "queues s (nat (readref qno s)) = Some q"
    "nat (readref qno s) < MAXQ"
    by (rule readref_okD)
  with inv have "tkt_index (ticket q) = of_nat (nat (readref qno s))"
    by (simp add: slots_indexed_def)
  with inv q False show ?thesis by (simp add: put_ok slots_indexed_def)
qed

lemma take_indexed: "slots_indexed s \<Longrightarrow> slots_indexed (snd (take_off_queue qno s))"
proof (cases "QE_ISERROR (readref qno s)")
  case True
  assume "slots_indexed s"
  with True show ?thesis by (simp add: op_error)
next
  case False
  assume inv: "slots_indexed s"
  from False obtain q where q: "queues s (nat (readref qno s)) = Some q"
    "nat (readref qno s) < MAXQ"
    by (rule readref_okD)
  with inv have "tkt_index (ticket q) = of_nat (nat (readref qno s))"
    by (simp add: slots_indexed_def)
  with inv q False show ?thesis by (simp add: take_ok slots_indexed_def)
qed

lemma exec_indexed: "slots_indexed s \<Longrightarrow> slots_indexed (snd (exec op s))"
  by (cases op) (simp_all add: split_def Let_def create_indexed delete_indexed put_indexed take_indexed)

lemma run_indexed: "slots_indexed s \<Longrightarrow> slots_indexed (snd (run ops s))"
proof (induction ops arbitrary: s)
  case Nil
  then show ?case by simp
next
  case (Cons op ops)
  from Cons.prems have "slots_indexed (snd (exec op s))" by (rule exec_indexed)
  then have "slots_indexed (snd (run ops (snd (exec op s))))" by (rule Cons.IH)
  then show ?case by (simp add: split_def Let_def)
qed

lemma of_nat_slot_inj:
  assumes "i < MAXQ" "j < MAXQ" "(of_nat i :: 32 word) = of_nat j"
  shows "i = j"
proof -
  have i: "unat (of_nat i :: 32 word) = i"
    using assms(1) by (simp add: unat_of_nat MAXQ_def)
  have j: "unat (of_nat j :: 32 word) = j"
    using assms(2) by (simp add: unat_of_nat MAXQ_def)
  from i j assms(3) show ?thesis by metis
qed

subsection \<open>The counter along a run\<close>

lemma create_success:
  assumes "create_queue blk s = (t, s')" and "\<not> QE_ISERROR (sint t)"
  shows "\<exists>b. blk = Some b \<and> mint_ok (noncectr s) \<and> scan_free (queues s) 0 < MAXQ \<and>
           t = push_bit 16 (of_nat (scan_free (queues s) 0) + IOFFSET) OR (noncectr s + NOFFSET) \<and>
           s' = s\<lparr>queues := (queues s)(scan_free (queues s) 0 :=
                    Some (b\<lparr>head := 0, count := 0, ticket := t\<rparr>)),
                  noncectr := noncectr s + 1\<rparr>"
proof -
  let ?cur = "scan_free (queues s) 0"
  have le: "?cur \<le> MAXQ" using scan_free_bounds[of 0 "queues s"] by simp
  have e: "sint (word_of_int QE_NOROOM :: 32 word) < 0" "sint (word_of_int QE_INTINCON :: 32 word) < 0"
    "sint (word_of_int QE_TOOMANYQS :: 32 word) < 0"
    by (simp_all add: code_defs)
  from assms e le show ?thesis
    by (auto simp: create_queue_alt Let_def QE_ISERROR_def split: if_splits option.splits)
qed

lemma create_counter:
  "noncectr (snd (create_queue blk s)) = noncectr s \<or>
   noncectr (snd (create_queue blk s)) = noncectr s + 1"
  by (simp add: create_queue_alt Let_def split: option.splits)

lemma delete_counter: "noncectr (snd (delete_queue qno s)) = noncectr s"
  by (simp add: delete_queue_def Let_def)

lemma put_counter: "noncectr (snd (put_on_queue qno n s)) = noncectr s"
  by (simp add: put_on_queue_def Let_def split: option.splits)

lemma take_counter: "noncectr (snd (take_off_queue qno s)) = noncectr s"
  by (simp add: take_off_queue_def Let_def split: option.splits)

lemma exec_counter:
  "\<exists>m. m \<le> (if is_create op then 1 else 0) \<and> noncectr (snd (exec op s)) = noncectr s + of_nat m"
proof (cases op)
  case (Create blk)
  from create_counter[of blk s] show ?thesis
  proof
    assume "noncectr (snd (create_queue blk s)) = noncectr s"
    then show ?thesis using Create by (intro exI[of _ 0]) (simp add: split_def Let_def)
  next
    assume "noncectr (snd (create_queue blk s)) = noncectr s + 1"
    then show ?thesis using Create by (intro exI[of _ 1]) (simp add: split_def Let_def)
  qed
next
  case (Delete qno)
  then show ?thesis by (intro exI[of _ 0]) (simp add: split_def Let_def delete_counter)
next
  case (Put qno n)
  then show ?thesis by (intro exI[of _ 0]) (simp add: split_def Let_def put_counter)
next
  case (Take qno)
  then show ?thesis by (intro exI[of _ 0]) (simp add: split_def Let_def take_counter)
qed



lemma mint_ok_iff: "mint_ok n \<longleftrightarrow> n < 0xFAFE \<or> 0xFFFFFAFE < n"
proof -
  have b: "unat n < 4294967296" using unsigned_less[of n, where ?'a = nat] by simp
  have "mint_ok n \<longleftrightarrow> (unat n + 1282) mod 4294967296 \<le> 65535 \<and> (unat n + 1282) mod 4294967296 \<noteq> 0"
    by (simp add: mint_ok_def NOFFSET_def word_le_nat_alt unat_word_ariths unat_eq_0[symmetric]
        del: unat_eq_0)
  also have "\<dots> \<longleftrightarrow> unat n < 64254 \<or> 4294966014 < unat n"
  proof (cases "unat n + 1282 < 4294967296")
    case True
    then have "(unat n + 1282) mod 4294967296 = unat n + 1282" by simp
    with True show ?thesis by auto
  next
    case False
    then have "(unat n + 1282) mod 4294967296 = (unat n + 1282 - 4294967296) mod 4294967296"
      by (simp add: le_mod_geq)
    also have "\<dots> = unat n + 1282 - 4294967296" using b False by simp
    finally show ?thesis using b False by auto
  qed
  also have "\<dots> \<longleftrightarrow> n < 0xFAFE \<or> 0xFFFFFAFE < n"
    by (simp add: word_less_nat_alt)
  finally show ?thesis .
qed

lemma free_slot_iff: "scan_free (queues s) 0 < MAXQ \<longleftrightarrow> (\<exists>i<MAXQ. queues s i = None)"
proof
  assume "scan_free (queues s) 0 < MAXQ"
  then show "\<exists>i<MAXQ. queues s i = None" using scan_free_None by blast
next
  assume "\<exists>i<MAXQ. queues s i = None"
  then have "scan_free (queues s) 0 \<noteq> MAXQ"
    using scan_free_skips[of 0 _ "queues s"] by fastforce
  with scan_free_bounds[of 0 "queues s"] show "scan_free (queues s) 0 < MAXQ" by simp
qed

lemma create_exhausted:
  assumes "\<not> mint_ok (noncectr s)" and "\<exists>i<MAXQ. queues s i = None"
  shows "create_queue (Some b) s = (word_of_int QE_INTINCON, s\<lparr>noncectr := noncectr s + 1\<rparr>)"
  using assms free_slot_iff[of s] by (simp add: create_queue_alt Let_def)

lemma exhausted_run:
  "\<exists>i<MAXQ. queues s i = None \<Longrightarrow> 0xFAFE \<le> unat (noncectr s) \<Longrightarrow>
   unat (noncectr s) + length bs \<le> 0xFFFFFAFF \<Longrightarrow>
   run (map (\<lambda>b. Create (Some b)) bs) s =
     (replicate (length bs) (Tkt (word_of_int QE_INTINCON)),
      s\<lparr>noncectr := noncectr s + of_nat (length bs)\<rparr>)"
proof (induction bs arbitrary: s)
  case Nil
  show ?case by simp
next
  case (Cons b bs)
  let ?s' = "s\<lparr>noncectr := noncectr s + 1\<rparr>"
  from Cons.prems have r: "0xFAFE \<le> unat (noncectr s)" "unat (noncectr s) \<le> 0xFFFFFAFE"
    by simp_all
  then have "\<not> mint_ok (noncectr s)"
    by (simp add: mint_ok_iff word_less_nat_alt)
  from create_exhausted[OF this Cons.prems(1)]
  have c: "create_queue (Some b) s = (word_of_int QE_INTINCON, ?s')" .
  have u: "unat (noncectr s + 1) = unat (noncectr s) + 1"
    using r by (simp add: unat_word_ariths)
  have "run (map (\<lambda>b. Create (Some b)) bs) ?s' =
     (replicate (length bs) (Tkt (word_of_int QE_INTINCON)),
      ?s'\<lparr>noncectr := noncectr ?s' + of_nat (length bs)\<rparr>)"
    using Cons.prems u by (intro Cons.IH) simp_all
  with c show ?case by (simp add: add.assoc)
qed

lemma issued_Create:
  "issued (Create blk # ops) s =
     (if QE_ISERROR (sint (fst (create_queue blk s)))
      then issued ops (snd (create_queue blk s))
      else fst (create_queue blk s) # issued ops (snd (create_queue blk s)))"
  by (simp add: split_def Let_def)

lemma issued_other:
  "\<not> is_create op \<Longrightarrow> issued (op # ops) s = issued ops (snd (exec op s))"
  by (cases op) (simp_all add: split_def Let_def)

lemma issued_fresh:
  "below_limit ops s \<Longrightarrow>
   (\<forall>t\<in>set (issued ops s). unat (noncectr s) + 1282 \<le> unat (tkt_nonce t)) \<and>
   distinct (map tkt_nonce (issued ops s))"
proof (induction ops arbitrary: s)
  case Nil
  show ?case by simp
next
  case (Cons op ops)
  let ?s' = "snd (exec op s)"
  from Cons.prems have lim: "noncectr s < 0xFAFE" and bl: "below_limit ops ?s'" by simp_all
  from lim have n: "unat (noncectr s) < 64254" by (simp add: word_less_nat_alt)
  note IH = Cons.IH[OF bl]
  from exec_counter[of op s] obtain m where
    m: "m \<le> (if is_create op then 1 else 0)" "noncectr ?s' = noncectr s + of_nat m"
    by blast
  then have "m = 0 \<or> m = 1" by (auto split: if_splits)
  then have mono: "unat (noncectr s) \<le> unat (noncectr ?s')"
    using m(2) n by (auto simp: unat_word_ariths)
  have rest: "\<forall>t\<in>set (issued ops ?s'). unat (noncectr s) + 1282 \<le> unat (tkt_nonce t)"
    using IH mono by fastforce
  show ?case
  proof (cases op)
    case (Create blk)
    show ?thesis
    proof (cases "QE_ISERROR (sint (fst (create_queue blk s)))")
      case True
      with Create IH rest show ?thesis by (simp add: issued_Create split_def Let_def)
    next
      case False
      obtain t s1 where c: "create_queue blk s = (t, s1)" by (cases "create_queue blk s")
      with False have ok: "\<not> QE_ISERROR (sint t)" by simp
      from create_success[OF c ok] obtain b where
        1: "mint_ok (noncectr s)" "scan_free (queues s) 0 < MAXQ"
           "t = push_bit 16 (of_nat (scan_free (queues s) 0) + IOFFSET) OR (noncectr s + NOFFSET)"
           "noncectr s1 = noncectr s + 1"
        by auto
      have tn: "tkt_nonce t = noncectr s + NOFFSET"
        using ticket_fields(2)[OF _ 1(1), of "scan_free (queues s) 0"] 1(2,3) by (simp add: MAXQ_def)
      have ut: "unat (tkt_nonce t) = unat (noncectr s) + 1282"
        unfolding tn using n by (simp add: NOFFSET_def unat_word_ariths)
      have s': "?s' = s1" using Create c by simp
      have "unat (noncectr s1) = unat (noncectr s) + 1"
        unfolding 1(4) using n by (simp add: unat_word_ariths)
      with IH s' have later: "\<forall>u\<in>set (issued ops s1). unat (tkt_nonce t) < unat (tkt_nonce u)"
        using ut by fastforce
      then have "tkt_nonce t \<notin> tkt_nonce ` set (issued ops s1)" by fastforce
      moreover have "issued (op # ops) s = t # issued ops s1"
        using Create c ok by (simp add: issued_Create)
      ultimately show ?thesis using IH rest s' ut by simp
    qed
  next
    case (Delete qno)
    then have "\<not> is_create op" by simp
    then have e: "issued (op # ops) s = issued ops ?s'" by (rule issued_other)
    from IH rest show ?thesis unfolding e by blast
  next
    case (Put qno v)
    then have "\<not> is_create op" by simp
    then have e: "issued (op # ops) s = issued ops ?s'" by (rule issued_other)
    from IH rest show ?thesis unfolding e by blast
  next
    case (Take qno)
    then have "\<not> is_create op" by simp
    then have e: "issued (op # ops) s = issued ops ?s'" by (rule issued_other)
    from IH rest show ?thesis unfolding e by blast
  qed
qed

subsection \<open>Operations on a rejected ticket\<close>



lemma readref_bad_iff:
  "readref qno s = QE_BADTICKET \<longleftrightarrow>
      tkt_index qno \<ge> 1024 \<or>
      queues s (unat (tkt_index qno)) = None \<or>
      (\<exists>q. queues s (unat (tkt_index qno)) = Some q \<and> ticket q \<noteq> qno)"
proof -
  have "uint (tkt_index qno) \<noteq> - 3"
    using uint_ge_0[of "tkt_index qno"] by linarith
  then show ?thesis
    by (auto simp: readref_alt code_defs split: option.splits)
qed

lemma bad_upd_other:
  assumes "readref h s = QE_BADTICKET" and "i \<noteq> unat (tkt_index h)"
  shows "readref h (s\<lparr>queues := (queues s)(i := x)\<rparr>) = QE_BADTICKET"
  using assms by (simp add: readref_bad_iff)











subsection \<open>Runs that create and delete one queue repeatedly\<close>








section \<open>The properties\<close>




text \<open>
  Claim C2 (FIFO law). Let \<open>qno\<close> be a live ticket whose queue is empty, and
  \<open>vs = v1, \<dots>, vn\<close> with \<open>0 < n \<le> MAXELT\<close>. Then the \<open>n\<close> calls of
  \<open>put_on_queue\<close> all return \<open>QE_NONE\<close>; they leave \<open>head\<close> unchanged, bring \<open>count\<close>
  to \<open>n\<close> and have written the \<open>k\<close>-th value at position \<open>(head + k) mod MAXELT\<close>;
  the following \<open>n\<close> calls of \<open>take_off_queue\<close> return exactly \<open>v1, \<dots>, vn\<close> in
  that order, and leave \<open>count = 0\<close> and \<open>head\<close> advanced by \<open>n\<close> modulo \<open>MAXELT\<close>.
\<close>

theorem fifo_order:
  assumes "\<not> QE_ISERROR (readref qno s)" and "queues s (nat (readref qno s)) = Some q"
    and "count q = 0" and "0 < length vs" and "int (length vs) \<le> MAXELT"
  shows "\<exists>s1 q1 s2 q2.
      puts qno vs s = (replicate (length vs) QE_NONE, s1) \<and>
      queues s1 (nat (readref qno s)) = Some q1 \<and>
      head q1 = head q \<and> count q1 = int (length vs) \<and>
      (\<forall>k<length vs. que q1 (nat ((head q + int k) mod MAXELT)) = vs ! k) \<and>
      takes qno (length vs) s1 = (vs, s2) \<and>
      queues s2 (nat (readref qno s)) = Some q2 \<and>
      head q2 = (head q + int (length vs)) mod MAXELT \<and> count q2 = 0"
proof -
  from assms(1,2) have l: "live qno s q" by (simp add: live_def)
  have e: "qcontents q = []" using assms(3) by (simp add: qcontents_def)
  from assms have "count q + int (length vs) \<le> MAXELT" by simp
  from puts_run[OF l this] e assms(3) obtain s1 q1 where
    1: "puts qno vs s = (replicate (length vs) QE_NONE, s1)" "live qno s1 q1"
       "readref qno s1 = readref qno s" "head q1 = head q"
       "count q1 = int (length vs)" "qcontents q1 = vs"
    by auto
  have "int (length vs) \<le> count q1" using 1(5) by simp
  from takes_run[OF 1(2) this] 1 obtain s2 q2 where
    2: "takes qno (length vs) s1 = (vs, s2)" "live qno s2 q2"
       "readref qno s2 = readref qno s" "head q2 = (head q + int (length vs)) mod MAXELT"
       "count q2 = 0"
    by auto
  have p: "\<forall>k<length vs. que q1 (nat ((head q + int k) mod MAXELT)) = vs ! k"
    using qcontents_nth[of _ q1] 1(4,5,6) by simp
  show ?thesis
    using 1 2 p by (intro exI[of _ s1] exI[of _ q1] exI[of _ s2] exI[of _ q2]) (simp add: live_def)
qed

theorem fifo_order_witness:
  "fst (puts 0x12210503 [11, 12, 13] (one_queue 1022 0)) = [QE_NONE, QE_NONE, QE_NONE] \<and>
   fst (takes 0x12210503 3 (snd (puts 0x12210503 [11, 12, 13] (one_queue 1022 0)))) = [11, 12, 13]"
proof -
  have l: "readref 0x12210503 (one_queue 1022 0) = 0"
    "queues (one_queue 1022 0) 0 = Some \<lparr>ticket = 0x12210503, que = (\<lambda>_. 7), head = 1022, count = 0\<rparr>"
    using live_one_queue[of 1022 0] by simp_all
  have "\<not> QE_ISERROR (readref 0x12210503 (one_queue 1022 0))"
    and "queues (one_queue 1022 0) (nat (readref 0x12210503 (one_queue 1022 0))) =
       Some \<lparr>ticket = 0x12210503, que = (\<lambda>_. 7), head = 1022, count = 0\<rparr>"
    and "count \<lparr>ticket = 0x12210503, que = (\<lambda>_. 7), head = 1022, count = 0\<rparr> = 0"
    and "0 < length [11, 12, 13 :: int]" and "int (length [11, 12, 13 :: int]) \<le> MAXELT"
    using l by (simp_all add: QE_ISERROR_def MAXELT_def)
  from fifo_order[OF this] show ?thesis
    by (auto simp: numeral_3_eq_3)
qed

text \<open>
  Claim C3 (capacity boundary). For a live ticket whose queue holds \<open>MAXELT\<close> elements
  \<open>put_on_queue\<close> returns \<open>QE_TOOFULL\<close>, and for one whose queue holds none
  \<open>take_off_queue\<close> returns \<open>QE_EMPTY\<close>; in both cases the whole state, hence the
  queue's \<open>head\<close>, \<open>count\<close> and elements, is unchanged.
\<close>

theorem capacity_boundary:
  assumes "\<not> QE_ISERROR (readref qno s)" and "queues s (nat (readref qno s)) = Some q"
  shows "(count q = MAXELT \<longrightarrow> put_on_queue qno n s = (QE_TOOFULL, s)) \<and>
         (count q = 0 \<longrightarrow> take_off_queue qno s = (QE_EMPTY, s))"
  using assms by (simp add: put_ok take_ok)

theorem capacity_boundary_witness:
  "put_on_queue 0x12210503 5 (one_queue 3 1024) = (QE_TOOFULL, one_queue 3 1024) \<and>
   take_off_queue 0x12210503 (one_queue 3 0) = (QE_EMPTY, one_queue 3 0)"
proof -
  have a: "readref 0x12210503 (one_queue 3 1024) = 0" "readref 0x12210503 (one_queue 3 0) = 0"
    by (simp_all add: readref_def eval_defs)
  have b: "queues (one_queue 3 1024) 0 = Some \<lparr>ticket = 0x12210503, que = (\<lambda>_. 7), head = 3, count = 1024\<rparr>"
     "queues (one_queue 3 0) 0 = Some \<lparr>ticket = 0x12210503, que = (\<lambda>_. 7), head = 3, count = 0\<rparr>"
    by (simp_all add: one_queue_def)
  show ?thesis
    using capacity_boundary[of "0x12210503" "one_queue 3 1024" _ 5] 
      capacity_boundary[of "0x12210503" "one_queue 3 0"] a b
    by (simp add: code_defs MAXELT_def)
qed

text \<open>
  Claim C4 (validation). \<open>readref\<close> returns \<open>QE_BADTICKET\<close> exactly when the decoded
  index is out of range, the slot at that index is empty, or the slot's stored ticket
  differs from the presented one. It returns \<open>QE_INTINCON\<close> exactly when the ticket
  passes those three checks and the slot's \<open>head\<close> is outside \<open>[0, MAXELT)\<close>, its
  \<open>count\<close> is outside \<open>[0, MAXELT]\<close>, or the generation field of the stored ticket is
  zero. Whenever \<open>readref\<close> returns an error, \<open>delete_queue\<close>, \<open>put_on_queue\<close> and
  \<open>take_off_queue\<close> return that error and leave the state unchanged.
\<close>

theorem readref_classification:
  "(readref qno s = QE_BADTICKET \<longleftrightarrow>
      tkt_index qno \<ge> of_nat MAXQ \<or>
      queues s (unat (tkt_index qno)) = None \<or>
      (\<exists>q. queues s (unat (tkt_index qno)) = Some q \<and> ticket q \<noteq> qno)) \<and>
   (readref qno s = QE_INTINCON \<longleftrightarrow>
      tkt_index qno < of_nat MAXQ \<and>
      (\<exists>q. queues s (unat (tkt_index qno)) = Some q \<and> ticket q = qno \<and>
           (head q < 0 \<or> head q \<ge> MAXELT \<or> count q < 0 \<or> count q > MAXELT \<or>
            tkt_nonce (ticket q) = 0))) \<and>
   (QE_ISERROR (readref qno s) \<longrightarrow>
      delete_queue qno s = (readref qno s, s) \<and>
      put_on_queue qno n s = (readref qno s, s) \<and>
      take_off_queue qno s = (readref qno s, s))"
proof -
  have nn: "uint (tkt_index qno) \<noteq> - 3" "uint (tkt_index qno) \<noteq> - 8"
    using uint_ge_0[of "tkt_index qno"] by linarith+
  have a: "readref qno s = QE_BADTICKET \<longleftrightarrow>
      tkt_index qno \<ge> of_nat MAXQ \<or>
      queues s (unat (tkt_index qno)) = None \<or>
      (\<exists>q. queues s (unat (tkt_index qno)) = Some q \<and> ticket q \<noteq> qno)"
    using nn by (auto simp: readref_alt MAXQ_def code_defs split: option.splits)
  have b: "readref qno s = QE_INTINCON \<longleftrightarrow>
      tkt_index qno < of_nat MAXQ \<and>
      (\<exists>q. queues s (unat (tkt_index qno)) = Some q \<and> ticket q = qno \<and>
           (head q < 0 \<or> head q \<ge> MAXELT \<or> count q < 0 \<or> count q > MAXELT \<or>
            tkt_nonce (ticket q) = 0))"
    using nn by (auto simp: readref_alt MAXQ_def code_defs slot_ok_def not_le split: option.splits)
  show ?thesis
    using a b op_error[of qno s] by blast
qed

theorem readref_classification_witness:
  "readref 0x12210504 (one_queue 0 0) = QE_BADTICKET \<and>
   delete_queue 0x12210504 (one_queue 0 0) = (QE_BADTICKET, one_queue 0 0) \<and>
   put_on_queue 0x12210504 5 (one_queue 0 0) = (QE_BADTICKET, one_queue 0 0) \<and>
   take_off_queue 0x12210504 (one_queue 0 0) = (QE_BADTICKET, one_queue 0 0) \<and>
   readref 0x12210503 (one_queue (- 1) 0) = QE_INTINCON \<and>
   take_off_queue 0x12210503 (one_queue (- 1) 0) = (QE_INTINCON, one_queue (- 1) 0)"
proof -
  have a: "readref 0x12210504 (one_queue 0 0) = QE_BADTICKET"
    by (simp add: readref_def eval_defs)
  have b: "readref 0x12210503 (one_queue (- 1) 0) = QE_INTINCON"
    by (simp add: readref_def eval_defs)
  show ?thesis
    using readref_classification[of "0x12210504" "one_queue 0 0" 5]
      readref_classification[of "0x12210503" "one_queue (- 1) 0" 5] a b
    by (simp add: code_defs)
qed

text \<open>
  Claim C5 (handle uniqueness). In every state reached from the initial state by a
  sequence of operations, the tickets stored in two distinct occupied slots decode to
  the indices of their own slots; so they never agree in both index and generation
  field, and they are distinct.
\<close>

theorem live_tickets_distinct:
  assumes "run ops init_state = (rs, s)"
    and "i < MAXQ" and "j < MAXQ" and "i \<noteq> j"
    and "queues s i = Some qi" and "queues s j = Some qj"
  shows "tkt_index (ticket qi) = of_nat i \<and> tkt_index (ticket qj) = of_nat j \<and>
         \<not> (tkt_index (ticket qi) = tkt_index (ticket qj) \<and>
            tkt_nonce (ticket qi) = tkt_nonce (ticket qj)) \<and>
         ticket qi \<noteq> ticket qj"
proof -
  have "slots_indexed (snd (run ops init_state))"
    using slots_indexed_init by (rule run_indexed)
  with assms(1) have inv: "slots_indexed s" by simp
  from inv assms have a: "tkt_index (ticket qi) = of_nat i" "tkt_index (ticket qj) = of_nat j"
    by (simp_all add: slots_indexed_def)
  have ne: "(of_nat i :: 32 word) \<noteq> of_nat j"
    using of_nat_slot_inj[OF assms(2,3)] assms(4) by blast
  with a have "tkt_index (ticket qi) \<noteq> tkt_index (ticket qj)" by simp
  then have "ticket qi \<noteq> ticket qj" by auto
  with a ne show ?thesis by simp
qed

theorem live_tickets_distinct_witness:
  "run [Create (Some junk), Create (Some junk)] init_state =
     ([Tkt 0x12210503, Tkt 0x12220504],
      \<lparr>queues = (\<lambda>_. None)
         (0 := Some \<lparr>ticket = 0x12210503, que = (\<lambda>_. 7), head = 0, count = 0\<rparr>,
          1 := Some \<lparr>ticket = 0x12220504, que = (\<lambda>_. 7), head = 0, count = 0\<rparr>),
       noncectr = 3\<rparr>) \<and>
   tkt_index 0x12210503 = 0 \<and> tkt_index 0x12220504 = 1 \<and>
   (0x12210503 :: QTICKET) \<noteq> 0x12220504"
proof -
  let ?q0 = "\<lparr>ticket = 0x12210503, que = (\<lambda>_. 7), head = 0, count = 0\<rparr>"
  let ?q1 = "\<lparr>ticket = 0x12220504, que = (\<lambda>_. 7), head = 0, count = 0\<rparr>"
  let ?s = "\<lparr>queues = (\<lambda>_. None)(0 := Some ?q0, 1 := Some ?q1), noncectr = 3\<rparr>"
  have c1: "create_queue (Some junk) init_state = (0x12210503, one_queue 0 0)"
    by (simp add: create_queue_alt scan_free_stop mint_ok_def eval_defs)
  have sc: "scan_free (queues (one_queue 0 0)) 0 = 1"
    by (simp add: scan_free_next scan_free_stop one_queue_def MAXQ_def)
  have c2: "create_queue (Some junk) (one_queue 0 0) = (0x12220504, ?s)"
    unfolding create_queue_alt sc Let_def by (simp add: mint_ok_def eval_defs)
  have r: "run [Create (Some junk), Create (Some junk)] init_state =
      ([Tkt 0x12210503, Tkt 0x12220504], ?s)"
    by (simp add: c1 c2)
  have "(0::nat) < MAXQ" "(1::nat) < MAXQ" "(0::nat) \<noteq> 1" "queues ?s 0 = Some ?q0" "queues ?s 1 = Some ?q1"
    by (simp_all add: MAXQ_def)
  from live_tickets_distinct[OF r this] r show ?thesis by simp
qed

text \<open>
  Claim C6 (lowest-index reuse, table exhaustion). If \<open>i\<close> is the lowest empty slot,
  the scan of \<open>create_queue\<close> stops at \<open>i\<close>; the call succeeds whenever \<open>malloc\<close>
  returns a block and the counter value is accepted; a successful call returns a ticket
  that decodes to \<open>i\<close> and changes the table at \<open>i\<close> only, where it stores the block
  with \<open>head = count = 0\<close> and the returned ticket; a failing call leaves the table as
  it was. If every slot below \<open>MAXQ\<close> is occupied, \<open>create_queue\<close> returns
  \<open>QE_TOOMANYQS\<close> and leaves the state unchanged.
\<close>

theorem create_lowest_free:
  "(i < MAXQ \<and> queues s i = None \<and> (\<forall>j<i. queues s j \<noteq> None) \<longrightarrow>
      scan_free (queues s) 0 = i \<and>
      (blk \<noteq> None \<and> mint_ok (noncectr s) \<longrightarrow> \<not> QE_ISERROR (sint (fst (create_queue blk s)))) \<and>
      (\<not> QE_ISERROR (sint (fst (create_queue blk s))) \<longrightarrow>
         tkt_index (fst (create_queue blk s)) = of_nat i \<and>
         (\<exists>b. blk = Some b \<and>
              queues (snd (create_queue blk s)) =
                (queues s)(i := Some (b\<lparr>head := 0, count := 0,
                                         ticket := fst (create_queue blk s)\<rparr>)))) \<and>
      (QE_ISERROR (sint (fst (create_queue blk s))) \<longrightarrow>
         queues (snd (create_queue blk s)) = queues s)) \<and>
   ((\<forall>j<MAXQ. queues s j \<noteq> None) \<longrightarrow>
      create_queue blk s = (word_of_int QE_TOOMANYQS, s))"
proof -
  have full: "(\<forall>j<MAXQ. queues s j \<noteq> None) \<longrightarrow>
      create_queue blk s = (word_of_int QE_TOOMANYQS, s)"
    using scan_free_full[of "queues s"] by (simp add: create_queue_alt)
  have free: "i < MAXQ \<and> queues s i = None \<and> (\<forall>j<i. queues s j \<noteq> None) \<longrightarrow>
      scan_free (queues s) 0 = i \<and>
      (blk \<noteq> None \<and> mint_ok (noncectr s) \<longrightarrow> \<not> QE_ISERROR (sint (fst (create_queue blk s)))) \<and>
      (\<not> QE_ISERROR (sint (fst (create_queue blk s))) \<longrightarrow>
         tkt_index (fst (create_queue blk s)) = of_nat i \<and>
         (\<exists>b. blk = Some b \<and>
              queues (snd (create_queue blk s)) =
                (queues s)(i := Some (b\<lparr>head := 0, count := 0,
                                         ticket := fst (create_queue blk s)\<rparr>)))) \<and>
      (QE_ISERROR (sint (fst (create_queue blk s))) \<longrightarrow>
         queues (snd (create_queue blk s)) = queues s)"
  proof (intro impI, elim conjE)
    assume h: "i < MAXQ" "queues s i = None" "\<forall>j<i. queues s j \<noteq> None"
    have c: "scan_free (queues s) 0 = i" using h by (rule scan_free_least)
    have ne: "i \<noteq> MAXQ" using h(1) by simp
    have i: "i \<le> 1024" using h(1) by (simp add: MAXQ_def)
    have e: "sint (word_of_int QE_NOROOM :: 32 word) < 0" "sint (word_of_int QE_INTINCON :: 32 word) < 0"
      by (simp_all add: code_defs)
    show "scan_free (queues s) 0 = i \<and>
      (blk \<noteq> None \<and> mint_ok (noncectr s) \<longrightarrow> \<not> QE_ISERROR (sint (fst (create_queue blk s)))) \<and>
      (\<not> QE_ISERROR (sint (fst (create_queue blk s))) \<longrightarrow>
         tkt_index (fst (create_queue blk s)) = of_nat i \<and>
         (\<exists>b. blk = Some b \<and>
              queues (snd (create_queue blk s)) =
                (queues s)(i := Some (b\<lparr>head := 0, count := 0,
                                         ticket := fst (create_queue blk s)\<rparr>)))) \<and>
      (QE_ISERROR (sint (fst (create_queue blk s))) \<longrightarrow>
         queues (snd (create_queue blk s)) = queues s)"
    proof (cases blk)
      case None
      with c ne e show ?thesis by (simp add: create_queue_alt QE_ISERROR_def)
    next
      case (Some b)
      show ?thesis
      proof (cases "mint_ok (noncectr s)")
        case True
        note tf = ticket_fields[OF i True]
        from tf(3) have "\<not> sint (push_bit 16 (of_nat i + IOFFSET) OR (noncectr s + NOFFSET)) < 0"
          by simp
        with c ne Some True tf(1) show ?thesis
          by (simp add: create_queue_alt QE_ISERROR_def)
      next
        case False
        with c ne Some e show ?thesis by (simp add: create_queue_alt QE_ISERROR_def)
      qed
    qed
  qed
  from free full show ?thesis by (rule conjI)
qed

theorem create_lowest_free_witness:
  "scan_free ((\<lambda>_. Some junk)(3 := None, 5 := None)) 0 = 3 \<and>
   fst (create_queue (Some junk) \<lparr>queues = (\<lambda>_. Some junk)(3 := None, 5 := None), noncectr = 9\<rparr>)
     = 0x1224050B \<and>
   queues (snd (create_queue (Some junk) \<lparr>queues = (\<lambda>_. Some junk)(3 := None, 5 := None), noncectr = 9\<rparr>)) 3
     = Some \<lparr>ticket = 0x1224050B, que = (\<lambda>_. 7), head = 0, count = 0\<rparr> \<and>
   queues (snd (create_queue (Some junk) \<lparr>queues = (\<lambda>_. Some junk)(3 := None, 5 := None), noncectr = 9\<rparr>)) 5
     = None \<and>
   create_queue (Some junk) \<lparr>queues = (\<lambda>_. Some junk), noncectr = 9\<rparr>
     = (word_of_int QE_TOOMANYQS, \<lparr>queues = (\<lambda>_. Some junk), noncectr = 9\<rparr>)"
proof -
  let ?s = "\<lparr>queues = (\<lambda>_. Some junk)(3 := None, 5 := None), noncectr = 9\<rparr>"
  let ?f = "\<lparr>queues = (\<lambda>_. Some junk), noncectr = 9\<rparr>"
  have h: "3 < MAXQ \<and> queues ?s 3 = None \<and> (\<forall>j<3. queues ?s j \<noteq> None)"
    by (simp add: MAXQ_def)
  have ok: "Some junk \<noteq> None \<and> mint_ok (noncectr ?s)"
    by (simp add: mint_ok_def NOFFSET_def)
  have full: "\<forall>j<MAXQ. queues ?f j \<noteq> None" by simp
  have t: "fst (create_queue (Some junk) ?s) = 0x1224050B"
    using create_lowest_free[of 3 ?s "Some junk"] h ok
    by (simp add: create_queue_alt mint_ok_def IOFFSET_def NOFFSET_def MAXQ_def)
  show ?thesis
    using create_lowest_free[of 3 ?s "Some junk"] create_lowest_free[of _ ?f "Some junk"] h ok full t
    by (simp add: junk_def)
qed

text \<open>
  Claim C7 (invariant preservation). If every occupied slot has \<open>head\<close> in
  \<open>[0, MAXELT)\<close>, \<open>count\<close> in \<open>[0, MAXELT]\<close> and a non-zero generation field in its
  stored ticket, then the same holds after \<open>create_queue\<close>, \<open>delete_queue\<close>,
  \<open>put_on_queue\<close> and \<open>take_off_queue\<close>, whatever their arguments and results.
\<close>

theorem operations_preserve_invariant:
  assumes "table_inv s"
  shows "table_inv (snd (create_queue blk s)) \<and>
         table_inv (snd (delete_queue qno s)) \<and>
         table_inv (snd (put_on_queue qno n s)) \<and>
         table_inv (snd (take_off_queue qno s))"
  using assms by (simp add: create_inv delete_inv put_inv take_inv)

theorem operations_preserve_invariant_witness:
  "table_inv (one_queue 1023 1) \<and>
   table_inv (snd (create_queue (Some junk) (one_queue 1023 1))) \<and>
   table_inv (snd (delete_queue 0x12210503 (one_queue 1023 1))) \<and>
   table_inv (snd (put_on_queue 0x12210503 5 (one_queue 1023 1))) \<and>
   table_inv (snd (take_off_queue 0x12210503 (one_queue 1023 1)))"
proof -
  have "table_inv (one_queue 1023 1)"
    by (simp add: table_inv_def slot_ok_def eval_defs)
  then show ?thesis
    using operations_preserve_invariant[of "one_queue 1023 1" "Some junk" "0x12210503" 5]
    by simp
qed

text \<open>
  Claim C8 (counter advance). Every call of \<open>qtktref\<close> whose argument passes the first
  check (\<open>index > MAXQ\<close> is false) leaves the state as it was except that \<open>noncectr\<close>
  is one larger (in unsigned 32-bit arithmetic). This includes the calls that return
  \<open>QE_INTINCON\<close>, which are exactly those where the generation field would not fit
  into 16 bits or would be zero.
\<close>

theorem qtktref_advances_counter:
  assumes "\<not> index > of_nat MAXQ"
  shows "snd (qtktref index s) = s\<lparr>noncectr := noncectr s + 1\<rparr> \<and>
         (fst (qtktref index s) = word_of_int QE_INTINCON \<longleftrightarrow> \<not> mint_ok (noncectr s))"
proof -
  from assms have i: "index \<le> 1024" by (simp add: MAXQ_def not_less)
  have hi: "(index + IOFFSET) AND 0x7fff = index + IOFFSET"
    using index_field_fits[OF i] by (simp add: and_7fff_iff IOFFSET_def)
  have "mint_ok (noncectr s) \<Longrightarrow>
      push_bit 16 (index + IOFFSET) OR (noncectr s + NOFFSET) \<noteq> word_of_int QE_INTINCON"
  proof
    assume ok: "mint_ok (noncectr s)"
    assume e: "push_bit 16 (index + IOFFSET) OR (noncectr s + NOFFSET) = word_of_int QE_INTINCON"
    have lo: "(noncectr s + NOFFSET) AND 0xffff = noncectr s + NOFFSET"
      using ok by (simp add: and_ffff_iff mint_ok_def)
    have "0 \<le> sint (push_bit 16 ((index + IOFFSET) AND 0x7fff) OR ((noncectr s + NOFFSET) AND 0xffff))"
      by (rule pack_nonneg)
    then show False unfolding hi lo e by (simp add: QE_INTINCON_def)
  qed
  then show ?thesis by (auto simp: qtktref_in_range[OF i])
qed

theorem qtktref_advances_counter_witness:
  "qtktref 0 init_state = (0x12210503, init_state\<lparr>noncectr := 2\<rparr>) \<and>
   qtktref 7 (init_state\<lparr>noncectr := 0xFAFE\<rparr>) = (word_of_int QE_INTINCON, init_state\<lparr>noncectr := 0xFAFF\<rparr>)"
proof -
  have a: "\<not> (0::32 word) > of_nat MAXQ" "\<not> (7::32 word) > of_nat MAXQ" by (simp_all add: MAXQ_def)
  have b: "fst (qtktref 0 init_state) = 0x12210503"
    by (simp add: qtktref_def eval_defs)
  have c: "\<not> mint_ok 0xFAFE" by (simp add: mint_ok_def NOFFSET_def)
  have d: "noncectr init_state = 1" by (simp add: init_state_def)
  show ?thesis
    using qtktref_advances_counter[OF a(1), of init_state]
      qtktref_advances_counter[OF a(2), of "init_state\<lparr>noncectr := 0xFAFE\<rparr>"] b c d
    by (simp add: prod_eq_iff)
qed

text \<open>
  Claim C9 (values in the error channel). When \<open>take_off_queue\<close> succeeds on a queue
  whose head element is negative, it returns that element, the queue loses it, and the
  returned value satisfies \<open>QE_ISERROR\<close>. There are two runs from the initial state
  whose last call of \<open>take_off_queue\<close> returns the same value \<open>-3\<close>: in \<open>run_ok\<close> the
  call dequeues the element \<open>-3\<close>, in \<open>run_bad\<close> it fails with \<open>QE_BADTICKET\<close> and
  changes nothing.
\<close>

theorem take_value_in_error_channel:
  "(\<not> QE_ISERROR (readref qno s) \<and> queues s (nat (readref qno s)) = Some q \<and>
      count q \<noteq> 0 \<and> que q (nat (head q)) < 0 \<longrightarrow>
      take_off_queue qno s =
        (que q (nat (head q)),
         s\<lparr>queues := (queues s)(nat (readref qno s) :=
              Some (q\<lparr>count := count q - 1, head := (head q + 1) mod MAXELT\<rparr>))\<rparr>) \<and>
      QE_ISERROR (fst (take_off_queue qno s))) \<and>
   run run_ok init_state =
      ([Tkt 0x12210503, Code QE_NONE, Code (- 3)],
       \<lparr>queues = (\<lambda>_. None)(0 := Some \<lparr>ticket = 0x12210503, que = (\<lambda>_. 7)(0 := - 3),
                                         head = 1, count = 0\<rparr>),
        noncectr = 2\<rparr>) \<and>
   run run_bad init_state = ([Tkt 0x12210503, Code QE_BADTICKET], one_queue 0 0) \<and>
   last (fst (run run_ok init_state)) = last (fst (run run_bad init_state))"
proof -
  have a: "\<not> QE_ISERROR (readref qno s) \<and> queues s (nat (readref qno s)) = Some q \<and>
      count q \<noteq> 0 \<and> que q (nat (head q)) < 0 \<longrightarrow>
      take_off_queue qno s =
        (que q (nat (head q)),
         s\<lparr>queues := (queues s)(nat (readref qno s) :=
              Some (q\<lparr>count := count q - 1, head := (head q + 1) mod MAXELT\<rparr>))\<rparr>) \<and>
      QE_ISERROR (fst (take_off_queue qno s))"
    by (simp add: take_ok QE_ISERROR_def)
  let ?s1 = "\<lparr>queues = (\<lambda>_. None)(0 := Some \<lparr>ticket = 0x12210503, que = (\<lambda>_. 7)(0 := - 3),
      head = 0, count = 1\<rparr>), noncectr = 2\<rparr>"
  let ?s2 = "\<lparr>queues = (\<lambda>_. None)(0 := Some \<lparr>ticket = 0x12210503, que = (\<lambda>_. 7)(0 := - 3),
      head = 1, count = 0\<rparr>), noncectr = 2\<rparr>"
  have c: "create_queue (Some junk) init_state = (0x12210503, one_queue 0 0)"
    by (simp add: create_queue_alt scan_free_stop mint_ok_def eval_defs)
  have p: "put_on_queue 0x12210503 (- 3) (one_queue 0 0) = (QE_NONE, ?s1)"
    by (simp add: put_on_queue_def readref_def eval_defs)
  have t: "take_off_queue 0x12210503 ?s1 = (- 3, ?s2)"
    by (simp add: take_off_queue_def readref_def eval_defs)
  have b: "take_off_queue 0x12210504 (one_queue 0 0) = (QE_BADTICKET, one_queue 0 0)"
    by (simp add: take_off_queue_def readref_def eval_defs)
  have r1: "run run_ok init_state = ([Tkt 0x12210503, Code QE_NONE, Code (- 3)], ?s2)"
    by (simp add: run_ok_def c p t)
  have r2: "run run_bad init_state = ([Tkt 0x12210503, Code QE_BADTICKET], one_queue 0 0)"
    by (simp add: run_bad_def c b)
  have e: "last (fst (run run_ok init_state)) = last (fst (run run_bad init_state))"
    by (simp add: r1 r2 QE_BADTICKET_def)
  show ?thesis
    apply (intro conjI)
       apply (rule a)
      apply (rule r1)
     apply (rule r2)
    apply (rule e)
    done
qed

theorem take_value_in_error_channel_witness:
  "take_off_queue 0x12210503
     \<lparr>queues = (\<lambda>_. None)(0 := Some \<lparr>ticket = 0x12210503, que = (\<lambda>_. - 3), head = 4, count = 2\<rparr>),
      noncectr = 2\<rparr> =
   (- 3, \<lparr>queues = (\<lambda>_. None)(0 := Some \<lparr>ticket = 0x12210503, que = (\<lambda>_. - 3), head = 5, count = 1\<rparr>),
      noncectr = 2\<rparr>) \<and>
   QE_ISERROR (fst (take_off_queue 0x12210503
     \<lparr>queues = (\<lambda>_. None)(0 := Some \<lparr>ticket = 0x12210503, que = (\<lambda>_. - 3), head = 4, count = 2\<rparr>),
      noncectr = 2\<rparr>))"
proof -
  let ?q = "\<lparr>ticket = 0x12210503, que = (\<lambda>_. - 3), head = 4, count = 2\<rparr>"
  let ?s = "\<lparr>queues = (\<lambda>_. None)(0 := Some ?q), noncectr = 2\<rparr>"
  have r: "readref 0x12210503 ?s = 0"
    by (simp add: readref_def eval_defs)
  then have "\<not> QE_ISERROR (readref 0x12210503 ?s) \<and> queues ?s (nat (readref 0x12210503 ?s)) = Some ?q \<and>
      count ?q \<noteq> 0 \<and> que ?q (nat (head ?q)) < 0"
    by (simp add: QE_ISERROR_def)
  with take_value_in_error_channel[THEN conjunct1, of "0x12210503" ?s ?q] r show ?thesis
    by (simp add: MAXELT_def QE_ISERROR_def)
qed

text \<open>
  Claim C10 (generation overflow), as amended. In every state with
  \<open>0xFAFE \<le> noncectr \<le> 0xFFFFFAFE\<close>: every call of \<open>qtktref\<close> with \<open>index \<le> MAXQ\<close>
  returns \<open>QE_INTINCON\<close> and increments \<open>noncectr\<close>; if the table has an empty slot,
  \<open>create_queue\<close> returns \<open>QE_INTINCON\<close> when \<open>malloc\<close> succeeds, leaving the table
  unchanged and incrementing \<open>noncectr\<close>, and so do all calls of a sequence of such
  calls as long as \<open>noncectr\<close> does not pass \<open>0xFFFFFAFF\<close>; it returns \<open>QE_NOROOM\<close>
  with the state unchanged when \<open>malloc\<close> fails; if the table is full it returns
  \<open>QE_TOOMANYQS\<close> with the state unchanged. In a run from the initial state in which
  the counter is below \<open>0xFAFE\<close> before each operation, the generation fields of the
  tickets issued are pairwise distinct.
\<close>

theorem generation_exhausted:
  "(0xFAFE \<le> noncectr s \<and> noncectr s \<le> 0xFFFFFAFE \<longrightarrow>
      (\<forall>index. index \<le> of_nat MAXQ \<longrightarrow>
         qtktref index s = (word_of_int QE_INTINCON, s\<lparr>noncectr := noncectr s + 1\<rparr>)) \<and>
      ((\<exists>i<MAXQ. queues s i = None) \<longrightarrow>
         create_queue (Some b) s = (word_of_int QE_INTINCON, s\<lparr>noncectr := noncectr s + 1\<rparr>) \<and>
         create_queue None s = (word_of_int QE_NOROOM, s) \<and>
         (\<forall>bs. unat (noncectr s) + length bs \<le> 0xFFFFFAFF \<longrightarrow>
            run (map (\<lambda>b. Create (Some b)) bs) s =
              (replicate (length bs) (Tkt (word_of_int QE_INTINCON)),
               s\<lparr>noncectr := noncectr s + of_nat (length bs)\<rparr>))) \<and>
      ((\<forall>i<MAXQ. queues s i \<noteq> None) \<longrightarrow>
         create_queue blk s = (word_of_int QE_TOOMANYQS, s))) \<and>
   (below_limit ops init_state \<longrightarrow> distinct (map tkt_nonce (issued ops init_state)))"
proof -
  have ex: "(\<forall>index. index \<le> of_nat MAXQ \<longrightarrow>
         qtktref index s = (word_of_int QE_INTINCON, s\<lparr>noncectr := noncectr s + 1\<rparr>)) \<and>
      ((\<exists>i<MAXQ. queues s i = None) \<longrightarrow>
         create_queue (Some b) s = (word_of_int QE_INTINCON, s\<lparr>noncectr := noncectr s + 1\<rparr>) \<and>
         create_queue None s = (word_of_int QE_NOROOM, s) \<and>
         (\<forall>bs. unat (noncectr s) + length bs \<le> 0xFFFFFAFF \<longrightarrow>
            run (map (\<lambda>b. Create (Some b)) bs) s =
              (replicate (length bs) (Tkt (word_of_int QE_INTINCON)),
               s\<lparr>noncectr := noncectr s + of_nat (length bs)\<rparr>))) \<and>
      ((\<forall>i<MAXQ. queues s i \<noteq> None) \<longrightarrow>
         create_queue blk s = (word_of_int QE_TOOMANYQS, s))"
    if r: "0xFAFE \<le> noncectr s" "noncectr s \<le> 0xFFFFFAFE"
  proof -
    from r have nok: "\<not> mint_ok (noncectr s)" by (simp add: mint_ok_iff not_less)
    from r have lo: "0xFAFE \<le> unat (noncectr s)" by (simp add: word_le_nat_alt)
    have a: "qtktref index s = (word_of_int QE_INTINCON, s\<lparr>noncectr := noncectr s + 1\<rparr>)"
      if "index \<le> of_nat MAXQ" for index
      using that nok by (simp add: qtktref_in_range MAXQ_def)
    have b1: "create_queue (Some b) s = (word_of_int QE_INTINCON, s\<lparr>noncectr := noncectr s + 1\<rparr>)"
      if "\<exists>i<MAXQ. queues s i = None"
      using nok that by (rule create_exhausted)
    have b2: "create_queue None s = (word_of_int QE_NOROOM, s)"
      if "\<exists>i<MAXQ. queues s i = None"
      using that free_slot_iff[of s] by (simp add: create_queue_alt Let_def)
    have b3: "run (map (\<lambda>b. Create (Some b)) bs) s =
              (replicate (length bs) (Tkt (word_of_int QE_INTINCON)),
               s\<lparr>noncectr := noncectr s + of_nat (length bs)\<rparr>)"
      if "\<exists>i<MAXQ. queues s i = None" "unat (noncectr s) + length bs \<le> 0xFFFFFAFF" for bs
      using that(1) lo that(2) by (rule exhausted_run)
    have c: "create_queue blk s = (word_of_int QE_TOOMANYQS, s)"
      if "\<forall>i<MAXQ. queues s i \<noteq> None"
      using scan_free_full[OF that] by (simp add: create_queue_alt)
    from a b1 b2 b3 c show ?thesis by blast
  qed
  have fr: "distinct (map tkt_nonce (issued ops init_state))" if "below_limit ops init_state"
    using issued_fresh[OF that] by simp
  from ex fr show ?thesis by blast
qed

theorem generation_exhausted_witness:
  "qtktref 3 exhausted_state = (word_of_int QE_INTINCON, exhausted_state\<lparr>noncectr := 0xFAFF\<rparr>) \<and>
   create_queue (Some junk) exhausted_state =
     (word_of_int QE_INTINCON, exhausted_state\<lparr>noncectr := 0xFAFF\<rparr>) \<and>
   run [Create (Some junk), Create (Some junk)] exhausted_state =
     ([Tkt (word_of_int QE_INTINCON), Tkt (word_of_int QE_INTINCON)],
      exhausted_state\<lparr>noncectr := 0xFB00\<rparr>) \<and>
   create_queue (Some junk) full_state = (word_of_int QE_TOOMANYQS, full_state) \<and>
   issued [Create (Some junk), Create (Some junk)] init_state = [0x12210503, 0x12220504] \<and>
   distinct (map tkt_nonce (issued [Create (Some junk), Create (Some junk)] init_state))"
proof -
  have r: "0xFAFE \<le> noncectr exhausted_state \<and> noncectr exhausted_state \<le> 0xFFFFFAFE"
    "0xFAFE \<le> noncectr full_state \<and> noncectr full_state \<le> 0xFFFFFAFE"
    by (simp_all add: exhausted_state_def full_state_def)
  have f: "\<exists>i<MAXQ. queues exhausted_state i = None"
    by (rule exI[of _ 0]) (simp add: exhausted_state_def MAXQ_def)
  have g: "\<forall>i<MAXQ. queues full_state i \<noteq> None"
    by (simp add: full_state_def)
  have i3: "(3 :: 32 word) \<le> of_nat MAXQ" by (simp add: MAXQ_def)
  have l2: "unat (noncectr exhausted_state) + length [junk, junk] \<le> 0xFFFFFAFF"
    by (simp add: exhausted_state_def)
  have c1: "create_queue (Some junk) init_state = (0x12210503, one_queue 0 0)"
    by (simp add: create_queue_alt scan_free_stop mint_ok_def eval_defs)
  have sc: "scan_free (queues (one_queue 0 0)) 0 = 1"
    by (simp add: scan_free_next scan_free_stop one_queue_def MAXQ_def)
  have c2: "fst (create_queue (Some junk) (one_queue 0 0)) = 0x12220504"
    unfolding create_queue_alt sc Let_def by (simp add: mint_ok_def eval_defs)
  have bl: "below_limit [Create (Some junk), Create (Some junk)] init_state"
    by (simp add: c1) (simp add: eval_defs)
  have iss: "issued [Create (Some junk), Create (Some junk)] init_state = [0x12210503, 0x12220504]"
    by (simp add: c1 c2 split_def QE_ISERROR_def)
  note ge = generation_exhausted[of exhausted_state junk "Some junk" "[Create (Some junk), Create (Some junk)]"]
  note gf = generation_exhausted[of full_state junk "Some junk" "[]"]
  from ge r(1) have q: "qtktref 3 exhausted_state =
      (word_of_int QE_INTINCON, exhausted_state\<lparr>noncectr := noncectr exhausted_state + 1\<rparr>)"
    using i3 by blast
  from ge r(1) f have c: "create_queue (Some junk) exhausted_state =
      (word_of_int QE_INTINCON, exhausted_state\<lparr>noncectr := noncectr exhausted_state + 1\<rparr>)"
    by blast
  from ge r(1) f l2 have rr: "run (map (\<lambda>b. Create (Some b)) [junk, junk]) exhausted_state =
      (replicate (length [junk, junk]) (Tkt (word_of_int QE_INTINCON)),
       exhausted_state\<lparr>noncectr := noncectr exhausted_state + of_nat (length [junk, junk])\<rparr>)"
    by blast
  from gf r(2) g have t: "create_queue (Some junk) full_state = (word_of_int QE_TOOMANYQS, full_state)"
    by blast
  from ge bl have di: "distinct (map tkt_nonce (issued [Create (Some junk), Create (Some junk)] init_state))"
    by blast
  have n: "noncectr exhausted_state = 0xFAFE" by (simp add: exhausted_state_def)
  show ?thesis
    apply (intro conjI)
         apply (use q n in simp)
        apply (use c n in simp)
       apply (use rr n in \<open>simp add: numeral_2_eq_2\<close>)
      apply (rule t)
     apply (rule iss)
    apply (rule di)
    done
qed

text \<open>
  The claim as stated fails. With the counter at \<open>0xFAFE\<close>, \<open>create_queue\<close> returns
  \<open>QE_NOROOM\<close> when \<open>malloc\<close> fails and \<open>QE_TOOMANYQS\<close> when the table is full, not
  \<open>QE_INTINCON\<close>. And the failures are not permanent: after 4294901761 further failing
  calls the counter is \<open>0xFFFFFAFF\<close>, the sum \<open>noncectr + NOFFSET\<close> wraps around to 1,
  and \<open>create_queue\<close> succeeds again, with the generation field 1.
\<close>

theorem generation_exhausted_counterexample:
  "noncectr exhausted_state = 0xFAFE \<and> noncectr full_state = 0xFAFE \<and>
   create_queue None exhausted_state = (word_of_int QE_NOROOM, exhausted_state) \<and>
   create_queue (Some junk) full_state = (word_of_int QE_TOOMANYQS, full_state) \<and>
   run (replicate 4294901761 (Create (Some junk))) exhausted_state =
     (replicate 4294901761 (Tkt (word_of_int QE_INTINCON)),
      \<lparr>queues = (\<lambda>_. None), noncectr = 0xFFFFFAFF\<rparr>) \<and>
   create_queue (Some junk) \<lparr>queues = (\<lambda>_. None), noncectr = 0xFFFFFAFF\<rparr> =
     (0x12210001,
      \<lparr>queues = (\<lambda>_. None)(0 := Some \<lparr>ticket = 0x12210001, que = (\<lambda>_. 7), head = 0, count = 0\<rparr>),
       noncectr = 0xFFFFFB00\<rparr>) \<and>
   (word_of_int QE_NOROOM :: QTICKET) \<noteq> word_of_int QE_INTINCON \<and>
   (word_of_int QE_TOOMANYQS :: QTICKET) \<noteq> word_of_int QE_INTINCON \<and>
   (0x12210001 :: QTICKET) \<noteq> word_of_int QE_INTINCON"
proof -
  have a: "create_queue None exhausted_state = (word_of_int QE_NOROOM, exhausted_state)"
    by (simp add: create_queue_alt scan_free_stop exhausted_state_def MAXQ_def)
  have b: "create_queue (Some junk) full_state = (word_of_int QE_TOOMANYQS, full_state)"
    by (simp add: create_queue_alt scan_free_full full_state_def)
  have f: "\<exists>i<MAXQ. queues exhausted_state i = None"
    by (rule exI[of _ 0]) (simp add: exhausted_state_def MAXQ_def)
  have lo: "0xFAFE \<le> unat (noncectr exhausted_state)"
    by (simp add: exhausted_state_def)
  have hi: "unat (noncectr exhausted_state) + length (replicate 4294901761 junk) \<le> 0xFFFFFAFF"
    by (simp add: exhausted_state_def)
  have m: "map (\<lambda>b. Create (Some b)) (replicate 4294901761 junk) =
      replicate 4294901761 (Create (Some junk))"
    by (rule map_replicate)
  have c: "run (replicate 4294901761 (Create (Some junk))) exhausted_state =
     (replicate 4294901761 (Tkt (word_of_int QE_INTINCON)),
      \<lparr>queues = (\<lambda>_. None), noncectr = 0xFFFFFAFF\<rparr>)"
    using exhausted_run[OF f lo hi] unfolding m
    by (simp add: exhausted_state_def)
  have d: "create_queue (Some junk) \<lparr>queues = (\<lambda>_. None), noncectr = 0xFFFFFAFF\<rparr> =
     (0x12210001,
      \<lparr>queues = (\<lambda>_. None)(0 := Some \<lparr>ticket = 0x12210001, que = (\<lambda>_. 7), head = 0, count = 0\<rparr>),
       noncectr = 0xFFFFFB00\<rparr>)"
  proof -
    have t: "push_bit 16 (of_nat 0 + IOFFSET) OR ((0xFFFFFAFF :: 32 word) + NOFFSET) = 0x12210001"
      by (simp add: IOFFSET_def NOFFSET_def)
    have sc: "scan_free (queues \<lparr>queues = (\<lambda>_. None), noncectr = 0xFFFFFAFF\<rparr>) 0 = 0"
      by (simp add: scan_free_stop MAXQ_def)
    have ok: "mint_ok (noncectr \<lparr>queues = (\<lambda>_. None), noncectr = 0xFFFFFAFF\<rparr>)"
      by (simp add: mint_ok_def NOFFSET_def)
    show ?thesis
      unfolding create_queue_alt sc Let_def using t ok by (simp add: junk_def MAXQ_def)
  qed
  have e: "(word_of_int QE_NOROOM :: QTICKET) \<noteq> word_of_int QE_INTINCON"
    "(word_of_int QE_TOOMANYQS :: QTICKET) \<noteq> word_of_int QE_INTINCON"
    "(0x12210001 :: QTICKET) \<noteq> word_of_int QE_INTINCON"
    by (simp_all add: code_defs)
  have n: "noncectr exhausted_state = 0xFAFE" "noncectr full_state = 0xFAFE"
    by (simp_all add: exhausted_state_def full_state_def)
  show ?thesis
    apply (intro conjI)
            apply (rule n(1))
           apply (rule n(2))
          apply (rule a)
         apply (rule b)
        apply (rule c)
       apply (rule d)
      apply (rule e(1))
     apply (rule e(2))
    apply (rule e(3))
    done
qed

end
